theory Spec2Isabelle
  imports Main "HOL-Library.Sublist"
begin

section \<open>JavaScript values\<close>

text \<open>
  The adapter works on plain JavaScript data: schemas, abstract queries, parsed JSON
  envelopes. A value is a tree. An object is the list of its own enumerable properties in
  the order \<^verbatim>\<open>Object.entries\<close> reports them; numbers are the integers; strings
  are ASCII. Inherited (prototype) properties are not part of the model.
\<close>

datatype jsval =
    JUndefined
  | JNull
  | JBool bool
  | JNum int
  | JStr string
  | JArr "jsval list"
  | JObj "(string \<times> jsval) list"

text \<open>
  What the code can throw: a TypeError of the language, an \<^verbatim>\<open>Error\<close> with its
  message, the RangeError of a recursion that is too deep. \<open>BadStore\<close> is not a
  JavaScript error: the store model below answers it for a reference that points at no
  cell, or at a cell of the wrong kind for a record.
\<close>

datatype error =
    TypeError
  | Error string
  | RangeError
  | BadStore

text \<open>Truthiness, as \<^verbatim>\<open>!x\<close>, \<^verbatim>\<open>x || y\<close> and \<^verbatim>\<open>if (x)\<close> test it.\<close>

fun truthy :: "jsval \<Rightarrow> bool" where
  "truthy JUndefined = False"
| "truthy JNull = False"
| "truthy (JBool b) = b"
| "truthy (JNum n) = (n \<noteq> 0)"
| "truthy (JStr s) = (s \<noteq> [])"
| "truthy (JArr xs) = True"
| "truthy (JObj kvs) = True"

text \<open>\<^verbatim>\<open>x || dflt\<close> on values.\<close>

definition or_else :: "jsval \<Rightarrow> jsval \<Rightarrow> jsval" where
  "or_else x dflt = (if truthy x then x else dflt)"

text \<open>Decimal rendering of a number, as a template literal and a property key have it.\<close>

definition digit_chars :: string where
  "digit_chars = ''0123456789''"

fun show_nat :: "nat \<Rightarrow> string" where
  "show_nat n = (if n < 10 then [digit_chars ! n]
                 else show_nat (n div 10) @ [digit_chars ! (n mod 10)])"

declare show_nat.simps [simp del]

definition show_int :: "int \<Rightarrow> string" where
  "show_int i = (if i < 0 then CHR ''-'' # show_nat (nat (- i)) else show_nat (nat i))"

text \<open>
  String conversion of a value inside a template literal: an array joins its elements with
  commas (null and undefined elements give the empty string), an object gives
  \<^verbatim>\<open>[object Object]\<close>.
\<close>

fun js_to_string :: "jsval \<Rightarrow> string"
  and js_join :: "jsval list \<Rightarrow> string" where
  "js_to_string JUndefined = ''undefined''"
| "js_to_string JNull = ''null''"
| "js_to_string (JBool b) = (if b then ''true'' else ''false'')"
| "js_to_string (JNum n) = show_int n"
| "js_to_string (JStr s) = s"
| "js_to_string (JArr xs) = js_join xs"
| "js_to_string (JObj kvs) = ''[object Object]''"
| "js_join [] = []"
| "js_join (x # xs) =
     (if x = JUndefined \<or> x = JNull then [] else js_to_string x)
     @ (if xs = [] then [] else CHR '','' # js_join xs)"

text \<open>The index that a property key names in a sequence of \<open>n\<close> elements, if any.\<close>

definition index_of_key :: "nat \<Rightarrow> string \<Rightarrow> nat option" where
  "index_of_key n k = (case filter (\<lambda>i. show_nat i = k) [0..<n] of [] \<Rightarrow> None | i # _ \<Rightarrow> Some i)"

definition nth_or :: "'a \<Rightarrow> 'a list \<Rightarrow> nat \<Rightarrow> 'a" where
  "nth_or d xs i = (if i < length xs then xs ! i else d)"

text \<open>
  Property read \<^verbatim>\<open>v[k]\<close> with a string key: a TypeError on null and undefined; an
  array or a string answers its indices and \<^verbatim>\<open>length\<close>; any other own property
  that is missing reads as undefined.
\<close>

fun js_prop :: "jsval \<Rightarrow> string \<Rightarrow> error + jsval" where
  "js_prop JUndefined k = Inl TypeError"
| "js_prop JNull k = Inl TypeError"
| "js_prop (JBool b) k = Inr JUndefined"
| "js_prop (JNum n) k = Inr JUndefined"
| "js_prop (JStr s) k =
     (case index_of_key (length s) k of
        Some i \<Rightarrow> Inr (JStr [s ! i])
      | None \<Rightarrow> if k = ''length'' then Inr (JNum (int (length s))) else Inr JUndefined)"
| "js_prop (JArr xs) k =
     (case index_of_key (length xs) k of
        Some i \<Rightarrow> Inr (xs ! i)
      | None \<Rightarrow> if k = ''length'' then Inr (JNum (int (length xs))) else Inr JUndefined)"
| "js_prop (JObj kvs) k = (case map_of kvs k of Some v \<Rightarrow> Inr v | None \<Rightarrow> Inr JUndefined)"

text \<open>The same read where the value is known not to be null or undefined.\<close>

definition get_prop :: "jsval \<Rightarrow> string \<Rightarrow> jsval" where
  "get_prop v k = (case js_prop v k of Inr x \<Rightarrow> x | Inl _ \<Rightarrow> JUndefined)"

text \<open>Optional chaining \<^verbatim>\<open>v?.k\<close>.\<close>

definition opt_prop :: "jsval \<Rightarrow> string \<Rightarrow> jsval" where
  "opt_prop v k = (if v = JUndefined \<or> v = JNull then JUndefined else get_prop v k)"

text \<open>Property read with a numeric index, \<^verbatim>\<open>v[0]\<close>.\<close>

fun js_at :: "jsval \<Rightarrow> nat \<Rightarrow> error + jsval" where
  "js_at JUndefined i = Inl TypeError"
| "js_at JNull i = Inl TypeError"
| "js_at (JBool b) i = Inr JUndefined"
| "js_at (JNum n) i = Inr JUndefined"
| "js_at (JStr s) i = Inr (if i < length s then JStr [s ! i] else JUndefined)"
| "js_at (JArr xs) i = Inr (nth_or JUndefined xs i)"
| "js_at (JObj kvs) i = (case map_of kvs (show_nat i) of Some v \<Rightarrow> Inr v | None \<Rightarrow> Inr JUndefined)"

text \<open>\<^verbatim>\<open>Object.entries(v)\<close>: a TypeError on null and undefined.\<close>

fun js_entries :: "jsval \<Rightarrow> error + (string \<times> jsval) list" where
  "js_entries JUndefined = Inl TypeError"
| "js_entries JNull = Inl TypeError"
| "js_entries (JBool b) = Inr []"
| "js_entries (JNum n) = Inr []"
| "js_entries (JStr s) = Inr (zip (map show_nat [0..<length s]) (map (\<lambda>c. JStr [c]) s))"
| "js_entries (JArr xs) = Inr (zip (map show_nat [0..<length xs]) xs)"
| "js_entries (JObj kvs) = Inr kvs"

text \<open>\<^verbatim>\<open>k in v\<close>: a TypeError unless \<open>v\<close> is an object or an array.\<close>

fun js_in :: "string \<Rightarrow> jsval \<Rightarrow> error + bool" where
  "js_in k (JObj kvs) = Inr (map_of kvs k \<noteq> None)"
| "js_in k (JArr xs) = Inr (index_of_key (length xs) k \<noteq> None \<or> k = ''length'')"
| "js_in k v = Inl TypeError"

text \<open>What \<^verbatim>\<open>for (... of v)\<close> iterates: the elements of an array, the characters of a string.\<close>

fun js_iter :: "jsval \<Rightarrow> error + jsval list" where
  "js_iter (JArr xs) = Inr xs"
| "js_iter (JStr s) = Inr (map (\<lambda>c. JStr [c]) s)"
| "js_iter v = Inl TypeError"

text \<open>\<^verbatim>\<open>toLowerCase\<close> and \<^verbatim>\<open>toLocaleLowerCase\<close> on ASCII text.\<close>

definition upper_chars :: string where
  "upper_chars = ''ABCDEFGHIJKLMNOPQRSTUVWXYZ''"

definition lower_chars :: string where
  "lower_chars = ''abcdefghijklmnopqrstuvwxyz''"

definition lower_char :: "char \<Rightarrow> char" where
  "lower_char c = (case map_of (zip upper_chars lower_chars) c of Some l \<Rightarrow> l | None \<Rightarrow> c)"

definition toLowerCase :: "string \<Rightarrow> string" where
  "toLowerCase s = map lower_char s"

section \<open>Schema compiler: createTableSql (util.js)\<close>

text \<open>
  The mapper descriptor of js-data, as far as the adapter reads it: \<^verbatim>\<open>name\<close>, the
  optional \<^verbatim>\<open>table\<close> and \<^verbatim>\<open>idAttribute\<close> (\<open>None\<close> when undefined), and
  \<^verbatim>\<open>schema\<close>.
\<close>

record mapper =
  name :: string
  table :: "string option"
  idAttribute :: "string option"
  schema :: jsval

text \<open>\<^verbatim>\<open>mapper.idAttribute || '_id'\<close>: the empty string is falsy.\<close>

definition id_attribute_of :: "mapper \<Rightarrow> string" where
  "id_attribute_of m =
     (case idAttribute m of None \<Rightarrow> ''_id'' | Some s \<Rightarrow> if s = [] then ''_id'' else s)"

definition synthesized_id :: "string \<Rightarrow> string" where
  "synthesized_id idA = idA @ '' INTEGER PRIMARY KEY AUTOINCREMENT''"

text \<open>The \<^verbatim>\<open>switch (fieldSchema.type)\<close> of the column type, entered for a truthy type.\<close>

definition sql_type :: "jsval \<Rightarrow> string" where
  "sql_type ty =
     (if ty = JStr ''string'' then '' TEXT''
      else if ty = JStr ''number'' \<or> ty = JStr ''integer'' then '' INTEGER''
      else if ty = JStr ''boolean'' then '' INTEGER''
      else if ty = JStr ''object'' \<or> ty = JStr ''array'' then '' TEXT''
      else '' TEXT'')"

text \<open>The DEFAULT clause: a string default goes between single quotes, unescaped.\<close>

definition default_clause :: "jsval \<Rightarrow> string" where
  "default_clause d =
     (if d = JUndefined then []
      else case d of
             JStr s \<Rightarrow> '' DEFAULT '' @ [CHR 0x27] @ s @ [CHR 0x27]
           | _ \<Rightarrow> '' DEFAULT '' @ js_to_string d)"

text \<open>
  The body of the loop for one property that is not skipped. Reading a property of a
  null or undefined field descriptor throws.
\<close>

definition column_def :: "string \<Rightarrow> string \<Rightarrow> jsval \<Rightarrow> error + string" where
  "column_def idA fieldName fieldSchema =
     (if fieldSchema = JUndefined \<or> fieldSchema = JNull then Inl TypeError
      else
        let ty = get_prop fieldSchema ''type'';
            c1 = fieldName @ (if truthy ty then sql_type ty else '' TEXT'');
            c2 = c1 @ (if fieldName = idA then '' PRIMARY KEY AUTOINCREMENT'' else []);
            c3 = c2 @ (if truthy (get_prop fieldSchema ''required'')
                          \<or> truthy (get_prop fieldSchema ''notNull'')
                       then '' NOT NULL'' else []);
            c4 = c3 @ (if truthy (get_prop fieldSchema ''unique'') then '' UNIQUE'' else []);
            c5 = c4 @ default_clause (get_prop fieldSchema ''default'')
        in Inr c5)"

text \<open>The loop over \<^verbatim>\<open>Object.entries(properties)\<close>, with the columns collected so far.\<close>

fun columns_loop :: "string \<Rightarrow> string list \<Rightarrow> (string \<times> jsval) list \<Rightarrow> error + string list" where
  "columns_loop idA columns [] = Inr columns"
| "columns_loop idA columns ((fieldName, fieldSchema) # rest) =
     (if fieldName = idA \<and> length columns > 0 then columns_loop idA columns rest
      else case column_def idA fieldName fieldSchema of
             Inl e \<Rightarrow> Inl e
           | Inr columnDef \<Rightarrow> columns_loop idA (columns @ [columnDef]) rest)"

text \<open>\<^verbatim>\<open>columns.join(', ')\<close>.\<close>

fun join_comma :: "string list \<Rightarrow> string" where
  "join_comma [] = []"
| "join_comma [c] = c"
| "join_comma (c # d # cs) = c @ '', '' @ join_comma (d # cs)"

definition createTableSql :: "mapper \<Rightarrow> string \<Rightarrow> error + string" where
  "createTableSql m tableName =
     (let schema0 = or_else (schema m) (JObj []);
          properties = or_else (get_prop schema0 ''properties'') (JObj []);
          idA = id_attribute_of m;
          columns0 = (if \<not> truthy (get_prop properties idA) then [synthesized_id idA] else [])
      in case js_entries properties of
           Inl e \<Rightarrow> Inl e
         | Inr entries \<Rightarrow>
             (case columns_loop idA columns0 entries of
                Inl e \<Rightarrow> Inl e
              | Inr columns \<Rightarrow>
                  let columns' = (if length columns = 0 then [synthesized_id idA] else columns)
                  in Inr (''CREATE TABLE IF NOT EXISTS '' @ tableName
                          @ '' ('' @ join_comma columns' @ '')'')))"

section \<open>Query compiler: toSql (util.js)\<close>

text \<open>
  The knex query builder is an external library. It is modelled by the sequence of the
  calls it has received, oldest first: the SQL text and the bindings that
  \<^verbatim>\<open>toSQL()\<close> yields are a function of that sequence. Every call is taken to
  succeed; what knex itself would refuse is outside the model. The type parameter is the
  type of the values handed to the builder.
\<close>

datatype 'v bcall =
    Limit 'v
  | Offset 'v
  | OrderBy 'v string
  | Where string string 'v
  | WhereIn string 'v
  | WhereNotIn string 'v

type_synonym builder = "jsval bcall list"

text \<open>
  Modelled from the spec: \<^verbatim>\<open>utils.plainCopy\<close> of js-data, which is not under src/.
  It builds a deep copy: a new array for an array, a new plain object with the same own
  properties for an object, each element and property copied in turn.
\<close>

fun plainCopy :: "jsval \<Rightarrow> jsval"
  and plainCopy_list :: "jsval list \<Rightarrow> jsval list"
  and plainCopy_fields :: "(string \<times> jsval) list \<Rightarrow> (string \<times> jsval) list" where
  "plainCopy (JArr xs) = JArr (plainCopy_list xs)"
| "plainCopy (JObj kvs) = JObj (plainCopy_fields kvs)"
| "plainCopy JUndefined = JUndefined"
| "plainCopy JNull = JNull"
| "plainCopy (JBool b) = JBool b"
| "plainCopy (JNum n) = JNum n"
| "plainCopy (JStr s) = JStr s"
| "plainCopy_list [] = []"
| "plainCopy_list (x # xs) = plainCopy x # plainCopy_list xs"
| "plainCopy_fields [] = []"
| "plainCopy_fields ((k, v) # kvs) = (k, plainCopy v) # plainCopy_fields kvs"

text \<open>
  \<^verbatim>\<open>delete v[k]\<close> on the working copy. The compiler deletes the four reserved keys,
  which an array never has, so only objects change.
\<close>

fun js_delete :: "jsval \<Rightarrow> string \<Rightarrow> jsval" where
  "js_delete (JObj kvs) k = JObj (filter (\<lambda>kv. fst kv \<noteq> k) kvs)"
| "js_delete v k = v"

text \<open>
  The \<^verbatim>\<open>orderBy\<close> loop: each element is destructured into \<^verbatim>\<open>[name, direction]\<close>,
  and \<^verbatim>\<open>direction.toLocaleLowerCase()\<close> throws unless the direction is a string.
\<close>

fun orderBy_loop :: "builder \<Rightarrow> jsval list \<Rightarrow> error + builder" where
  "orderBy_loop builder [] = Inr builder"
| "orderBy_loop builder (e # es) =
     (case js_iter e of
        Inl err \<Rightarrow> Inl err
      | Inr parts \<Rightarrow>
          (case nth_or JUndefined parts 1 of
             JStr direction \<Rightarrow>
               orderBy_loop
                 (builder @ [OrderBy (nth_or JUndefined parts 0) (toLowerCase direction)]) es
           | _ \<Rightarrow> Inl TypeError))"

text \<open>The \<^verbatim>\<open>switch (op)\<close>: an operator outside the twelve cases leaves the builder as it is.\<close>

definition apply_op :: "'v bcall list \<Rightarrow> string \<Rightarrow> string \<Rightarrow> 'v \<Rightarrow> 'v bcall list" where
  "apply_op builder field op v =
     (if op = ''=='' \<or> op = ''==='' then builder @ [Where field ''='' v]
      else if op = ''!='' \<or> op = ''!=='' then builder @ [Where field ''<>'' v]
      else if op = ''>'' then builder @ [Where field ''>'' v]
      else if op = ''>='' then builder @ [Where field ''>='' v]
      else if op = ''<'' then builder @ [Where field ''<'' v]
      else if op = ''<='' then builder @ [Where field ''<='' v]
      else if op = ''in'' \<or> op = ''contains'' then builder @ [WhereIn field v]
      else if op = ''notIn'' \<or> op = ''notContains'' then builder @ [WhereNotIn field v]
      else builder)"

fun cond_loop :: "'v bcall list \<Rightarrow> string \<Rightarrow> (string \<times> 'v) list \<Rightarrow> 'v bcall list" where
  "cond_loop builder field [] = builder"
| "cond_loop builder field ((op, v) # rest) = cond_loop (apply_op builder field op v) field rest"

text \<open>
  The loop over \<^verbatim>\<open>Object.entries(query)\<close>; \<^verbatim>\<open>Object.entries(cond)\<close> throws on a
  null or undefined condition. The \<^verbatim>\<open>delete query[field]\<close> of the loop acts on the
  working copy, whose entries were read before the loop and which is not read again.
\<close>

fun fields_loop :: "builder \<Rightarrow> (string \<times> jsval) list \<Rightarrow> error + builder" where
  "fields_loop builder [] = Inr builder"
| "fields_loop builder ((field, cond) # rest) =
     (case js_entries cond of
        Inl err \<Rightarrow> Inl err
      | Inr ops \<Rightarrow> fields_loop (cond_loop builder field ops) rest)"

text \<open>The steps for \<^verbatim>\<open>limit\<close>, \<^verbatim>\<open>offset\<close> and \<^verbatim>\<open>orderBy\<close>, on the working copy.\<close>

definition limit_step :: "builder \<times> jsval \<Rightarrow> error + builder \<times> jsval" where
  "limit_step bq =
     (case js_in ''limit'' (snd bq) of
        Inl err \<Rightarrow> Inl err
      | Inr present \<Rightarrow>
          if present
          then Inr (fst bq @ [Limit (get_prop (snd bq) ''limit'')], js_delete (snd bq) ''limit'')
          else Inr bq)"

definition offset_step :: "builder \<times> jsval \<Rightarrow> error + builder \<times> jsval" where
  "offset_step bq =
     (case js_in ''offset'' (snd bq) of
        Inl err \<Rightarrow> Inl err
      | Inr present \<Rightarrow>
          if present
          then Inr (fst bq @ [Offset (get_prop (snd bq) ''offset'')], js_delete (snd bq) ''offset'')
          else Inr bq)"

definition orderBy_step :: "builder \<times> jsval \<Rightarrow> error + builder \<times> jsval" where
  "orderBy_step bq =
     (case js_in ''orderBy'' (snd bq) of
        Inl err \<Rightarrow> Inl err
      | Inr present \<Rightarrow>
          if present
          then (case js_iter (get_prop (snd bq) ''orderBy'') of
                  Inl err \<Rightarrow> Inl err
                | Inr pairs \<Rightarrow>
                    (case orderBy_loop (fst bq) pairs of
                       Inl err \<Rightarrow> Inl err
                     | Inr builder \<Rightarrow> Inr (builder, js_delete (snd bq) ''orderBy'')))
          else Inr bq)"

definition head_steps :: "builder \<Rightarrow> jsval \<Rightarrow> error + builder \<times> jsval" where
  "head_steps builder query =
     (case limit_step (builder, query) of
        Inl err \<Rightarrow> Inl err
      | Inr bq1 \<Rightarrow>
          (case offset_step bq1 of
             Inl err \<Rightarrow> Inl err
           | Inr bq2 \<Rightarrow> orderBy_step bq2))"

text \<open>
  The recursion of the compiler is on the nested \<^verbatim>\<open>where\<close> value, which is smaller
  than the query that holds it; the facts below are what its termination proof needs.
\<close>

lemma plainCopy_id_aux:
  "plainCopy v = v" "plainCopy_list xs = xs" "plainCopy_fields kvs = kvs"
  by (induction v and xs and kvs rule: plainCopy_plainCopy_list_plainCopy_fields.induct) auto

lemma size_map_of: "map_of kvs k = Some v \<Longrightarrow> size v < size (JObj kvs)"
  by (induction kvs) (auto split: if_splits)

lemma size_member: "x \<in> set xs \<Longrightarrow> size x < size (JArr xs)"
  by (induction xs) auto

lemma index_of_key_less: "index_of_key n k = Some i \<Longrightarrow> i < n"
proof -
  assume a: "index_of_key n k = Some i"
  then obtain rest where "filter (\<lambda>i. show_nat i = k) [0..<n] = i # rest"
    by (auto simp: index_of_key_def split: list.splits)
  then have "i \<in> set (filter (\<lambda>i. show_nat i = k) [0..<n])"
    by simp
  then show ?thesis by simp
qed

lemma size_get_prop_obj: "size (get_prop (JObj kvs) k) < size (JObj kvs)"
  by (auto simp: get_prop_def dest: size_map_of split: option.splits)

lemma size_get_prop_arr: "size (get_prop (JArr xs) k) < size (JArr xs)"
proof (cases "index_of_key (length xs) k")
  case None
  then show ?thesis by (simp add: get_prop_def)
next
  case (Some i)
  then have "xs ! i \<in> set xs" using index_of_key_less by (metis nth_mem)
  then show ?thesis using Some size_member[of "xs ! i" xs] by (simp add: get_prop_def)
qed

lemma map_of_filter_other:
  "k \<noteq> k' \<Longrightarrow> map_of (filter (\<lambda>kv. fst kv \<noteq> k') kvs) k = map_of kvs k"
  by (induction kvs) auto

lemma get_prop_js_delete: "k \<noteq> k' \<Longrightarrow> get_prop (js_delete q k') k = get_prop q k"
  by (cases q) (simp_all add: get_prop_def map_of_filter_other)

lemma limit_step_query:
  "limit_step (b, q) = Inr (b', q') \<Longrightarrow> q' = q \<or> q' = js_delete q ''limit''"
  by (auto simp: limit_step_def split: sum.splits if_splits)

lemma offset_step_query:
  "offset_step (b, q) = Inr (b', q') \<Longrightarrow> q' = q \<or> q' = js_delete q ''offset''"
  by (auto simp: offset_step_def split: sum.splits if_splits)

lemma orderBy_step_query:
  "orderBy_step (b, q) = Inr (b', q') \<Longrightarrow> q' = q \<or> q' = js_delete q ''orderBy''"
  by (auto simp: orderBy_step_def split: sum.splits if_splits)

lemma head_steps_where:
  assumes "head_steps b q = Inr (b', q')"
  shows "get_prop q' ''where'' = get_prop q ''where''"
proof -
  from assms obtain b1 q1 b2 q2 where
    s1: "limit_step (b, q) = Inr (b1, q1)" and
    s2: "offset_step (b1, q1) = Inr (b2, q2)" and
    s3: "orderBy_step (b2, q2) = Inr (b', q')"
    by (auto simp: head_steps_def split: sum.splits)
  have "get_prop q1 ''where'' = get_prop q ''where''"
    using limit_step_query[OF s1] by (auto simp: get_prop_js_delete)
  moreover have "get_prop q2 ''where'' = get_prop q1 ''where''"
    using offset_step_query[OF s2] by (auto simp: get_prop_js_delete)
  moreover have "get_prop q' ''where'' = get_prop q2 ''where''"
    using orderBy_step_query[OF s3] by (auto simp: get_prop_js_delete)
  ultimately show ?thesis by simp
qed

lemma head_steps_shape:
  assumes "head_steps b q = Inr (b', q')"
  shows "(\<exists>kvs. q = JObj kvs) \<or> (\<exists>xs. q = JArr xs)"
  using assms by (cases q) (auto simp: head_steps_def limit_step_def split: sum.splits)

text \<open>
  The compiler itself. The \<^verbatim>\<open>where\<close> entry is compiled by a recursive call on the
  nested value, into the same builder, before the remaining entries are read.
\<close>

function toSql :: "builder \<Rightarrow> jsval \<Rightarrow> error + builder" where
  "toSql builder query0 =
     (case head_steps builder (plainCopy query0) of
        Inl err \<Rightarrow> Inl err
      | Inr (b3, q3) \<Rightarrow>
          (case js_in ''where'' q3 of
             Inl err \<Rightarrow> Inl err
           | Inr present \<Rightarrow>
               (case (if present then toSql b3 (get_prop q3 ''where'') else Inr b3) of
                  Inl err \<Rightarrow> Inl err
                | Inr b4 \<Rightarrow>
                    (case js_entries (if present then js_delete q3 ''where'' else q3) of
                       Inl err \<Rightarrow> Inl err
                     | Inr entries \<Rightarrow> fields_loop b4 entries))))"
  by pat_completeness auto
termination
proof (relation "measure (\<lambda>(b, q). size q)")
  show "wf (measure (\<lambda>(b, q). size q))" by simp
next
  fix builder query0 x2 x y present
  assume h: "head_steps builder (plainCopy query0) = Inr x2" "(x, y) = x2"
  then have hs: "head_steps builder query0 = Inr (x, y)" by (simp add: plainCopy_id_aux)
  have "size (get_prop query0 ''where'') < size query0"
    using head_steps_shape[OF hs] size_get_prop_obj size_get_prop_arr by auto
  then show "((x, get_prop y ''where''), builder, query0) \<in> measure (\<lambda>(b, q). size q)"
    using head_steps_where[OF hs] by simp
qed

declare toSql.simps [simp del]

section \<open>Remote execution client and table registry (index.js)\<close>

text \<open>
  A request to the database endpoint: the SQL text and the parameters of its JSON body.
  The URL and the headers are constants of the adapter.
\<close>

record request =
  sql :: string
  params :: "jsval list"

text \<open>
  The transport, \<^verbatim>\<open>fetch\<close> followed by \<^verbatim>\<open>response.json()\<close>, is external. It is a
  parameter: from the requests sent so far and the request at hand it gives either a
  failure (the call rejects) or the parsed body.
\<close>

type_synonym remote = "request list \<Rightarrow> request \<Rightarrow> error + jsval"

text \<open>
  The adapter: the configured \<^verbatim>\<open>autocreateTables\<close>, the private table cache, and the
  requests it has sent, oldest first, kept to count remote calls. Operations run one after
  the other; what the constructor's background query has put into the cache is part of the
  cache an operation starts from.
\<close>

record adapter =
  autocreateTables :: jsval
  tableCache :: "string set"
  sent :: "request list"

definition HTTP :: "remote \<Rightarrow> adapter \<Rightarrow> request \<Rightarrow> adapter \<times> (error + jsval)" where
  "HTTP remote a req = (a\<lparr>sent := sent a @ [req]\<rparr>, remote (sent a) req)"

text \<open>
  The error thrown for an envelope whose \<^verbatim>\<open>success\<close> is falsy:
  \<^verbatim>\<open>new Error(resp.errors[0]?.message || 'Unknown error')\<close>.
\<close>

definition envelope_error :: "jsval \<Rightarrow> error" where
  "envelope_error resp =
     (case js_at (get_prop resp ''errors'') 0 of
        Inl err \<Rightarrow> err
      | Inr first \<Rightarrow>
          Error (js_to_string (or_else (opt_prop first ''message'') (JStr ''Unknown error''))))"

text \<open>
  \<^verbatim>\<open>_executeSQL\<close>. On success the arguments of the debug call read
  \<^verbatim>\<open>resp.result[0]\<close>, which throws when \<^verbatim>\<open>result\<close> is missing, before the
  function returns that element. Logging has no other effect.
\<close>

definition executeSQL :: "remote \<Rightarrow> adapter \<Rightarrow> string \<Rightarrow> jsval list \<Rightarrow> adapter \<times> (error + jsval)" where
  "executeSQL remote a sqlText ps =
     (case HTTP remote a \<lparr>sql = sqlText, params = ps\<rparr> of
        (a', Inl err) \<Rightarrow> (a', Inl err)
      | (a', Inr resp) \<Rightarrow>
          (case js_prop resp ''success'' of
             Inl err \<Rightarrow> (a', Inl err)
           | Inr ok \<Rightarrow>
               if \<not> truthy ok then (a', Inl (envelope_error resp))
               else (a', js_at (get_prop resp ''result'') 0)))"

text \<open>
  \<^verbatim>\<open>underscore\<close> (util.js): an underscore before every capital letter, lower case, and
  one leading underscore removed.
\<close>

definition underscore :: "string \<Rightarrow> string" where
  "underscore str =
     (let marked = concat (map (\<lambda>c. if c \<in> set upper_chars then [CHR ''_'', c] else [c]) str);
          lowered = toLowerCase marked
      in case lowered of
           [] \<Rightarrow> []
         | c # cs \<Rightarrow> if c = CHR ''_'' then cs else lowered)"

text \<open>\<^verbatim>\<open>_getTable\<close>: \<^verbatim>\<open>mapper.table || underscore(mapper.name)\<close>.\<close>

definition getTable :: "mapper \<Rightarrow> string" where
  "getTable m =
     (case table m of
        None \<Rightarrow> underscore (name m)
      | Some t \<Rightarrow> if t = [] then underscore (name m) else t)"

text \<open>\<^verbatim>\<open>_ensureTable\<close>.\<close>

definition ensureTable :: "remote \<Rightarrow> adapter \<Rightarrow> mapper \<Rightarrow> adapter \<times> (error + unit)" where
  "ensureTable remote a m =
     (let tableName = getTable m
      in if tableName \<in> tableCache a then (a, Inr ())
         else if \<not> truthy (autocreateTables a)
         then (a, Inl (Error (''Table '' @ tableName @ '' not found'')))
         else case createTableSql m tableName of
                Inl err \<Rightarrow> (a, Inl err)
              | Inr createSQL \<Rightarrow>
                  (case executeSQL remote a createSQL [] of
                     (a', Inl err) \<Rightarrow> (a', Inl err)
                   | (a', Inr res) \<Rightarrow>
                       (a'\<lparr>tableCache := insert tableName (tableCache a')\<rparr>, Inr ())))"

section \<open>Objects with identity: the store\<close>

text \<open>
  Where a property depends on which object is written, values live in a store. An object
  or an array is a cell at an address; a value is a primitive or a reference to a cell.
  A cell is allocated at the end of the store, so the addresses below \<open>length s\<close> are
  the objects that exist in \<open>s\<close>. An array element of \<open>None\<close> is a hole, as
  \<^verbatim>\<open>delete arr[i]\<close> leaves one.
\<close>

datatype ref_val =
    VUndefined
  | VNull
  | VBool bool
  | VNum int
  | VStr string
  | VRef nat

datatype cell =
    CObj "(string \<times> ref_val) list"
  | CArr "ref_val option list"

type_synonym store = "cell list"

definition st_cell :: "store \<Rightarrow> nat \<Rightarrow> cell option" where
  "st_cell s a = (if a < length s then Some (s ! a) else None)"

definition elem_val :: "ref_val option \<Rightarrow> ref_val" where
  "elem_val x = (case x of None \<Rightarrow> VUndefined | Some v \<Rightarrow> v)"

text \<open>Building a tree value in the store, as parsing JSON or an object literal does.\<close>

fun alloc :: "store \<Rightarrow> jsval \<Rightarrow> store \<times> ref_val"
  and alloc_elems :: "store \<Rightarrow> jsval list \<Rightarrow> store \<times> ref_val option list"
  and alloc_fields :: "store \<Rightarrow> (string \<times> jsval) list \<Rightarrow> store \<times> (string \<times> ref_val) list" where
  "alloc s JUndefined = (s, VUndefined)"
| "alloc s JNull = (s, VNull)"
| "alloc s (JBool b) = (s, VBool b)"
| "alloc s (JNum n) = (s, VNum n)"
| "alloc s (JStr t) = (s, VStr t)"
| "alloc s (JArr xs) =
     (case alloc_elems (s @ [CArr []]) xs of (s', ys) \<Rightarrow> (s'[length s := CArr ys], VRef (length s)))"
| "alloc s (JObj kvs) =
     (case alloc_fields (s @ [CObj []]) kvs of (s', kvs') \<Rightarrow> (s'[length s := CObj kvs'], VRef (length s)))"
| "alloc_elems s [] = (s, [])"
| "alloc_elems s (x # xs) =
     (case alloc s x of (s1, y) \<Rightarrow>
        (case alloc_elems s1 xs of (s2, ys) \<Rightarrow> (s2, Some y # ys)))"
| "alloc_fields s [] = (s, [])"
| "alloc_fields s ((k, v) # kvs) =
     (case alloc s v of (s1, y) \<Rightarrow>
        (case alloc_fields s1 kvs of (s2, ys) \<Rightarrow> (s2, (k, y) # ys)))"

text \<open>
  Modelled from the spec: \<^verbatim>\<open>utils.plainCopy\<close> of js-data, which is not under src/,
  on the store. The copy of an object or an array is a new cell, made first and then
  filled with the copies of the properties or elements; a hole is read as undefined.
  The first argument bounds the depth of nesting that is followed; a value nested
  deeper, a cyclic one included, ends in a RangeError in this model.
\<close>

fun st_copy :: "nat \<Rightarrow> store \<Rightarrow> ref_val \<Rightarrow> store \<times> (error + ref_val)"
  and st_copy_elems :: "nat \<Rightarrow> store \<Rightarrow> ref_val option list
                          \<Rightarrow> store \<times> (error + ref_val option list)"
  and st_copy_fields :: "nat \<Rightarrow> store \<Rightarrow> (string \<times> ref_val) list
                           \<Rightarrow> store \<times> (error + (string \<times> ref_val) list)" where
  "st_copy 0 s (VRef a) = (s, Inl RangeError)"
| "st_copy (Suc n) s (VRef a) =
     (if a < length s
      then (case s ! a of
              CArr xs \<Rightarrow>
                (case st_copy_elems n (s @ [CArr []]) xs of
                   (s', Inl err) \<Rightarrow> (s', Inl err)
                 | (s', Inr ys) \<Rightarrow> (s'[length s := CArr ys], Inr (VRef (length s))))
            | CObj kvs \<Rightarrow>
                (case st_copy_fields n (s @ [CObj []]) kvs of
                   (s', Inl err) \<Rightarrow> (s', Inl err)
                 | (s', Inr kvs') \<Rightarrow> (s'[length s := CObj kvs'], Inr (VRef (length s)))))
      else (s, Inl BadStore))"
| "st_copy n s VUndefined = (s, Inr VUndefined)"
| "st_copy n s VNull = (s, Inr VNull)"
| "st_copy n s (VBool b) = (s, Inr (VBool b))"
| "st_copy n s (VNum i) = (s, Inr (VNum i))"
| "st_copy n s (VStr t) = (s, Inr (VStr t))"
| "st_copy_elems n s [] = (s, Inr [])"
| "st_copy_elems n s (x # xs) =
     (case st_copy n s (elem_val x) of
        (s1, Inl err) \<Rightarrow> (s1, Inl err)
      | (s1, Inr y) \<Rightarrow>
          (case st_copy_elems n s1 xs of
             (s2, Inl err) \<Rightarrow> (s2, Inl err)
           | (s2, Inr ys) \<Rightarrow> (s2, Inr (Some y # ys))))"
| "st_copy_fields n s [] = (s, Inr [])"
| "st_copy_fields n s ((k, v) # kvs) =
     (case st_copy n s v of
        (s1, Inl err) \<Rightarrow> (s1, Inl err)
      | (s1, Inr y) \<Rightarrow>
          (case st_copy_fields n s1 kvs of
             (s2, Inl err) \<Rightarrow> (s2, Inl err)
           | (s2, Inr ys) \<Rightarrow> (s2, Inr ((k, y) # ys))))"

text \<open>The reads of the compiler, on the store.\<close>

fun st_in :: "string \<Rightarrow> store \<Rightarrow> ref_val \<Rightarrow> error + bool" where
  "st_in k s (VRef a) =
     (case st_cell s a of
        None \<Rightarrow> Inl BadStore
      | Some (CObj kvs) \<Rightarrow> Inr (map_of kvs k \<noteq> None)
      | Some (CArr xs) \<Rightarrow>
          Inr ((case index_of_key (length xs) k of Some i \<Rightarrow> xs ! i \<noteq> None | None \<Rightarrow> False)
               \<or> k = ''length''))"
| "st_in k s v = Inl TypeError"

fun st_prop :: "store \<Rightarrow> ref_val \<Rightarrow> string \<Rightarrow> ref_val" where
  "st_prop s (VRef a) k =
     (case st_cell s a of
        None \<Rightarrow> VUndefined
      | Some (CObj kvs) \<Rightarrow> (case map_of kvs k of Some v \<Rightarrow> v | None \<Rightarrow> VUndefined)
      | Some (CArr xs) \<Rightarrow>
          (case index_of_key (length xs) k of
             Some i \<Rightarrow> elem_val (xs ! i)
           | None \<Rightarrow> if k = ''length'' then VNum (int (length xs)) else VUndefined))"
| "st_prop s v k = VUndefined"

fun st_iter :: "store \<Rightarrow> ref_val \<Rightarrow> error + ref_val list" where
  "st_iter s (VRef a) =
     (case st_cell s a of
        None \<Rightarrow> Inl BadStore
      | Some (CObj kvs) \<Rightarrow> Inl TypeError
      | Some (CArr xs) \<Rightarrow> Inr (map elem_val xs))"
| "st_iter s (VStr t) = Inr (map (\<lambda>c. VStr [c]) t)"
| "st_iter s v = Inl TypeError"

fun st_entries :: "store \<Rightarrow> ref_val \<Rightarrow> error + (string \<times> ref_val) list" where
  "st_entries s (VRef a) =
     (case st_cell s a of
        None \<Rightarrow> Inl BadStore
      | Some (CObj kvs) \<Rightarrow> Inr kvs
      | Some (CArr xs) \<Rightarrow>
          Inr (concat (map (\<lambda>i. case xs ! i of None \<Rightarrow> [] | Some v \<Rightarrow> [(show_nat i, v)])
                         [0..<length xs])))"
| "st_entries s VUndefined = Inl TypeError"
| "st_entries s VNull = Inl TypeError"
| "st_entries s (VStr t) = Inr (zip (map show_nat [0..<length t]) (map (\<lambda>c. VStr [c]) t))"
| "st_entries s v = Inr []"

text \<open>
  \<^verbatim>\<open>delete v[k]\<close>: the one write of the compiler. It removes the property from the
  object cell, or leaves a hole in the array cell.
\<close>

fun st_delete :: "store \<Rightarrow> ref_val \<Rightarrow> string \<Rightarrow> store" where
  "st_delete s (VRef a) k =
     (case st_cell s a of
        None \<Rightarrow> s
      | Some (CObj kvs) \<Rightarrow> s[a := CObj (filter (\<lambda>kv. fst kv \<noteq> k) kvs)]
      | Some (CArr xs) \<Rightarrow>
          (case index_of_key (length xs) k of
             Some i \<Rightarrow> s[a := CArr (xs[i := None])]
           | None \<Rightarrow> s))"
| "st_delete s v k = s"

section \<open>The query compiler on the store\<close>

type_synonym sbuilder = "ref_val bcall list"

fun st_orderBy_loop :: "store \<Rightarrow> sbuilder \<Rightarrow> ref_val list \<Rightarrow> error + sbuilder" where
  "st_orderBy_loop s builder [] = Inr builder"
| "st_orderBy_loop s builder (e # es) =
     (case st_iter s e of
        Inl err \<Rightarrow> Inl err
      | Inr parts \<Rightarrow>
          (case nth_or VUndefined parts 1 of
             VStr direction \<Rightarrow>
               st_orderBy_loop s
                 (builder @ [OrderBy (nth_or VUndefined parts 0) (toLowerCase direction)]) es
           | _ \<Rightarrow> Inl TypeError))"

definition st_limit_step :: "store \<Rightarrow> sbuilder \<Rightarrow> ref_val \<Rightarrow> store \<times> (error + sbuilder)" where
  "st_limit_step s builder query =
     (case st_in ''limit'' s query of
        Inl err \<Rightarrow> (s, Inl err)
      | Inr present \<Rightarrow>
          if present
          then (st_delete s query ''limit'', Inr (builder @ [Limit (st_prop s query ''limit'')]))
          else (s, Inr builder))"

definition st_offset_step :: "store \<Rightarrow> sbuilder \<Rightarrow> ref_val \<Rightarrow> store \<times> (error + sbuilder)" where
  "st_offset_step s builder query =
     (case st_in ''offset'' s query of
        Inl err \<Rightarrow> (s, Inl err)
      | Inr present \<Rightarrow>
          if present
          then (st_delete s query ''offset'', Inr (builder @ [Offset (st_prop s query ''offset'')]))
          else (s, Inr builder))"

definition st_orderBy_step :: "store \<Rightarrow> sbuilder \<Rightarrow> ref_val \<Rightarrow> store \<times> (error + sbuilder)" where
  "st_orderBy_step s builder query =
     (case st_in ''orderBy'' s query of
        Inl err \<Rightarrow> (s, Inl err)
      | Inr present \<Rightarrow>
          if present
          then (case st_iter s (st_prop s query ''orderBy'') of
                  Inl err \<Rightarrow> (s, Inl err)
                | Inr pairs \<Rightarrow>
                    (case st_orderBy_loop s builder pairs of
                       Inl err \<Rightarrow> (s, Inl err)
                     | Inr builder' \<Rightarrow> (st_delete s query ''orderBy'', Inr builder')))
          else (s, Inr builder))"

definition st_head_steps :: "store \<Rightarrow> sbuilder \<Rightarrow> ref_val \<Rightarrow> store \<times> (error + sbuilder)" where
  "st_head_steps s builder query =
     (case st_limit_step s builder query of
        (s1, Inl err) \<Rightarrow> (s1, Inl err)
      | (s1, Inr b1) \<Rightarrow>
          (case st_offset_step s1 b1 query of
             (s2, Inl err) \<Rightarrow> (s2, Inl err)
           | (s2, Inr b2) \<Rightarrow> st_orderBy_step s2 b2 query))"

text \<open>The loop over the entries read from the working copy: each field is deleted from it.\<close>

fun st_fields_loop :: "store \<Rightarrow> ref_val \<Rightarrow> sbuilder \<Rightarrow> (string \<times> ref_val) list
                         \<Rightarrow> store \<times> (error + sbuilder)" where
  "st_fields_loop s query builder [] = (s, Inr builder)"
| "st_fields_loop s query builder ((field, cond) # rest) =
     (let s' = st_delete s query field
      in case st_entries s' cond of
           Inl err \<Rightarrow> (s', Inl err)
         | Inr ops \<Rightarrow> st_fields_loop s' query (cond_loop builder field ops) rest)"

text \<open>
  \<^verbatim>\<open>toSql\<close> on the store: the query is a value of the caller's, the working copy is
  made by \<^verbatim>\<open>plainCopy\<close>, and every \<^verbatim>\<open>delete\<close> is a write to the store. The first
  argument bounds the depth of the recursion on \<^verbatim>\<open>where\<close> and of the copies.
\<close>

fun toSql_st :: "nat \<Rightarrow> store \<Rightarrow> sbuilder \<Rightarrow> ref_val \<Rightarrow> store \<times> (error + sbuilder)" where
  "toSql_st 0 s builder query0 = (s, Inl RangeError)"
| "toSql_st (Suc n) s builder query0 =
     (case st_copy n s query0 of
        (s1, Inl err) \<Rightarrow> (s1, Inl err)
      | (s1, Inr query) \<Rightarrow>
          (case st_head_steps s1 builder query of
             (s2, Inl err) \<Rightarrow> (s2, Inl err)
           | (s2, Inr b3) \<Rightarrow>
               (case st_in ''where'' s2 query of
                  Inl err \<Rightarrow> (s2, Inl err)
                | Inr present \<Rightarrow>
                    (case (if present then toSql_st n s2 b3 (st_prop s2 query ''where'')
                           else (s2, Inr b3)) of
                       (s3, Inl err) \<Rightarrow> (s3, Inl err)
                     | (s3, Inr b4) \<Rightarrow>
                         (let s4 = (if present then st_delete s3 query ''where'' else s3)
                          in case st_entries s4 query of
                               Inl err \<Rightarrow> (s4, Inl err)
                             | Inr entries \<Rightarrow> st_fields_loop s4 query b4 entries)))))"

section \<open>Creating a record: _create (index.js)\<close>

text \<open>
  Property keys that are array indices are listed first by the engine, in ascending
  order; every other key is listed in the order of creation.
\<close>

definition digit_val :: "char \<Rightarrow> nat option" where
  "digit_val c = (case filter (\<lambda>d. digit_chars ! d = c) [0..<10] of [] \<Rightarrow> None | d # _ \<Rightarrow> Some d)"

fun parse_nat :: "nat \<Rightarrow> string \<Rightarrow> nat option" where
  "parse_nat acc [] = Some acc"
| "parse_nat acc (c # cs) =
     (case digit_val c of None \<Rightarrow> None | Some d \<Rightarrow> parse_nat (10 * acc + d) cs)"

definition array_index :: "string \<Rightarrow> nat option" where
  "array_index k =
     (if k = [] then None
      else case parse_nat 0 k of
             None \<Rightarrow> None
           | Some n \<Rightarrow> if show_nat n = k \<and> n < 4294967295 then Some n else None)"

definition index_before :: "nat \<Rightarrow> string \<Rightarrow> bool" where
  "index_before n k = (case array_index k of None \<Rightarrow> False | Some i \<Rightarrow> i < n)"

text \<open>\<^verbatim>\<open>obj[k] = x\<close> on the properties of an object.\<close>

definition obj_set :: "(string \<times> 'v) list \<Rightarrow> string \<Rightarrow> 'v \<Rightarrow> (string \<times> 'v) list" where
  "obj_set kvs k x =
     (if map_of kvs k \<noteq> None then map (\<lambda>kv. if fst kv = k then (k, x) else kv) kvs
      else case array_index k of
             None \<Rightarrow> kvs @ [(k, x)]
           | Some n \<Rightarrow>
               takeWhile (\<lambda>kv. index_before n (fst kv)) kvs @ [(k, x)]
               @ dropWhile (\<lambda>kv. index_before n (fst kv)) kvs)"

text \<open>
  \<^verbatim>\<open>props[k] = x\<close> in a module, which is strict code: a TypeError on a primitive, on
  null and on undefined. A record is an object; for a reference to anything else the
  model answers \<open>BadStore\<close>.
\<close>

fun st_set :: "store \<Rightarrow> ref_val \<Rightarrow> string \<Rightarrow> ref_val \<Rightarrow> error + store" where
  "st_set s (VRef a) k x =
     (case st_cell s a of
        Some (CObj kvs) \<Rightarrow> Inr (s[a := CObj (obj_set kvs k x)])
      | _ \<Rightarrow> Inl BadStore)"
| "st_set s v k x = Inl TypeError"

text \<open>The key that \<^verbatim>\<open>props[mapper.idAttribute]\<close> names.\<close>

definition id_key :: "mapper \<Rightarrow> string" where
  "id_key m = (case idAttribute m of None \<Rightarrow> ''undefined'' | Some k \<Rightarrow> k)"

text \<open>
  \<^verbatim>\<open>_create\<close>. The INSERT statement and its bindings come from knex, an external
  library: \<open>insert_sql\<close> is that compilation, a parameter. The record \<open>props\<close> is a
  value of the caller's in the store; the result pairs the record with the metadata of the
  response.
\<close>

definition create ::
  "remote \<Rightarrow> (string \<Rightarrow> store \<Rightarrow> ref_val \<Rightarrow> request) \<Rightarrow> adapter \<Rightarrow> store \<Rightarrow> mapper \<Rightarrow> ref_val
   \<Rightarrow> (adapter \<times> store) \<times> (error + ref_val \<times> jsval)" where
  "create remote insert_sql a s m props =
     (case ensureTable remote a m of
        (a1, Inl err) \<Rightarrow> ((a1, s), Inl err)
      | (a1, Inr u) \<Rightarrow>
          (let req = insert_sql (getTable m) s props
           in case executeSQL remote a1 (sql req) (params req) of
                (a2, Inl err) \<Rightarrow> ((a2, s), Inl err)
              | (a2, Inr result) \<Rightarrow>
                  (case js_prop result ''meta'' of
                     Inl err \<Rightarrow> ((a2, s), Inl err)
                   | Inr meta \<Rightarrow>
                       (let id = opt_prop meta ''last_row_id''
                        in if truthy id
                           then (case alloc s id of
                                   (s1, idv) \<Rightarrow>
                                     (case st_set s1 props (id_key m) idv of
                                        Inl err \<Rightarrow> ((a2, s1), Inl err)
                                      | Inr s2 \<Rightarrow> ((a2, s2), Inr (props, meta))))
                           else ((a2, s), Inr (props, meta))))))"

section \<open>Vocabulary of the properties\<close>

text \<open>The operator symbols the compiler recognises, and the keys it treats as its own.\<close>

definition recognized_ops :: "string list" where
  "recognized_ops = [''=='', ''==='', ''!='', ''!=='', ''>'', ''>='', ''<'', ''<='',
                     ''in'', ''contains'', ''notIn'', ''notContains'']"

definition head_keys :: "string list" where
  "head_keys = [''limit'', ''offset'', ''orderBy'']"

definition reserved_keys :: "string list" where
  "reserved_keys = [''limit'', ''offset'', ''orderBy'', ''where'']"

text \<open>A condition without the entries of one operator, and a query whose field has such a condition.\<close>

fun drop_op :: "string \<Rightarrow> jsval \<Rightarrow> jsval" where
  "drop_op op (JObj ops) = JObj (filter (\<lambda>e. fst e \<noteq> op) ops)"
| "drop_op op c = c"

fun remove_entry :: "string \<Rightarrow> string \<Rightarrow> jsval \<Rightarrow> jsval" where
  "remove_entry field op (JObj kvs) =
     JObj (map (\<lambda>kv. if fst kv = field then (fst kv, drop_op op (snd kv)) else kv) kvs)"
| "remove_entry field op q = q"

text \<open>The same removal in a query nested in \<^verbatim>\<open>where\<close> objects, \<open>depth\<close> levels down.\<close>

fun remove_nested :: "nat \<Rightarrow> string \<Rightarrow> string \<Rightarrow> jsval \<Rightarrow> jsval" where
  "remove_nested 0 field op q = remove_entry field op q"
| "remove_nested (Suc d) field op (JObj kvs) =
     JObj (map (\<lambda>kv. if fst kv = ''where'' then (fst kv, remove_nested d field op (snd kv))
                     else kv) kvs)"
| "remove_nested (Suc d) field op q = q"

definition lift_remove ::
  "string \<Rightarrow> string \<Rightarrow> error + builder \<times> jsval \<Rightarrow> error + builder \<times> jsval" where
  "lift_remove field op r =
     (case r of Inl e \<Rightarrow> Inl e | Inr bq \<Rightarrow> Inr (fst bq, remove_entry field op (snd bq)))"

text \<open>
  The parts of a query object: its \<^verbatim>\<open>limit\<close>, \<^verbatim>\<open>offset\<close> and \<^verbatim>\<open>orderBy\<close>
  entries, and its field predicates.
\<close>

definition head_part :: "(string \<times> jsval) list \<Rightarrow> jsval" where
  "head_part kvs = JObj (filter (\<lambda>kv. fst kv \<in> set head_keys) kvs)"

definition field_part :: "(string \<times> jsval) list \<Rightarrow> jsval" where
  "field_part kvs = JObj (filter (\<lambda>kv. fst kv \<notin> set reserved_keys) kvs)"

text \<open>The builder after the first three steps, read off the properties of the query.\<close>

definition head_builder :: "builder \<Rightarrow> (string \<rightharpoonup> jsval) \<Rightarrow> error + builder" where
  "head_builder b m =
     (let b1 = (case m ''limit'' of None \<Rightarrow> b | Some l \<Rightarrow> b @ [Limit l]);
          b2 = (case m ''offset'' of None \<Rightarrow> b1 | Some off \<Rightarrow> b1 @ [Offset off])
      in case m ''orderBy'' of
           None \<Rightarrow> Inr b2
         | Some ob \<Rightarrow> (case js_iter ob of Inl e \<Rightarrow> Inl e | Inr pairs \<Rightarrow> orderBy_loop b2 pairs))"

text \<open>A value that is no object of the store \<open>s\<close>: a primitive, or a reference past its end.\<close>

definition fresh_in :: "store \<Rightarrow> ref_val \<Rightarrow> bool" where
  "fresh_in s r = (case r of VRef c \<Rightarrow> length s \<le> c | _ \<Rightarrow> True)"

text \<open>
  Values for the worked instances: the mapper and the adapter of the test suite, a remote
  that answers every request with a successful envelope whose metadata is empty on the
  first request and carries the given \<^verbatim>\<open>last_row_id\<close> afterwards, a remote that
  answers with a failure envelope, and a stand-in for the INSERT compilation of knex.
\<close>

definition user_mapper :: mapper where
  "user_mapper = \<lparr>name = ''user'', table = None, idAttribute = Some ''id'', schema = JUndefined\<rparr>"

text \<open>
  A mapper whose schema declares the property \<^verbatim>\<open>name\<close> as \<^verbatim>\<open>null\<close>:
  \<^verbatim>\<open>{properties: {id: {type: 'integer'}, name: null}}\<close>.
\<close>

definition null_field_mapper :: mapper where
  "null_field_mapper =
     \<lparr>name = ''user'', table = None, idAttribute = Some ''id'',
      schema = JObj [(''properties'', JObj [(''id'', JObj [(''type'', JStr ''integer'')]),
                                            (''name'', JNull)])]\<rparr>"

definition new_adapter :: "jsval \<Rightarrow> adapter" where
  "new_adapter autocreate = \<lparr>autocreateTables = autocreate, tableCache = {}, sent = []\<rparr>"

definition mock_remote :: "jsval \<Rightarrow> remote" where
  "mock_remote row_id history req =
     Inr (JObj [(''success'', JBool True),
                (''result'', JArr [JObj [(''results'', JArr []),
                                         (''meta'', JObj (if history = [] then []
                                                          else [(''last_row_id'', row_id)]))]])])"

definition failing_remote :: "jsval list \<Rightarrow> remote" where
  "failing_remote errs history req = Inr (JObj [(''success'', JBool False), (''errors'', JArr errs)])"

definition insert_stub :: "string \<Rightarrow> store \<Rightarrow> ref_val \<Rightarrow> request" where
  "insert_stub tbl s props = \<lparr>sql = ''insert into '' @ tbl, params = []\<rparr>"

section \<open>The schema compiler: properties\<close>

text \<open>
  Claim C6. For the schema with the properties \<^verbatim>\<open>id\<close> (integer), \<^verbatim>\<open>name\<close>
  (string, required) and \<^verbatim>\<open>email\<close> (string, unique), the id attribute \<^verbatim>\<open>id\<close> and
  the table \<^verbatim>\<open>t\<close>, the compiler gives exactly the statement of the scenario. For a
  schema that is absent (undefined or null) or empty (no properties), whatever the
  mapper and the table name, it gives the single synthesized column
  \<^verbatim>\<open><idAttribute> INTEGER PRIMARY KEY AUTOINCREMENT\<close>.
\<close>

theorem createTableSql_scenario:
  "createTableSql
     \<lparr>name = ''user'', table = None, idAttribute = Some ''id'',
      schema = JObj [(''properties'', JObj
        [(''id'', JObj [(''type'', JStr ''integer'')]),
         (''name'', JObj [(''type'', JStr ''string''), (''required'', JBool True)]),
         (''email'', JObj [(''type'', JStr ''string''), (''unique'', JBool True)])])]\<rparr> ''t''
   = Inr ''CREATE TABLE IF NOT EXISTS t (id INTEGER PRIMARY KEY AUTOINCREMENT, name TEXT NOT NULL, email TEXT UNIQUE)''
   \<and> createTableSql (m\<lparr>schema := JUndefined\<rparr>) t
       = Inr (''CREATE TABLE IF NOT EXISTS '' @ t @ '' ('' @ id_attribute_of m
              @ '' INTEGER PRIMARY KEY AUTOINCREMENT)'')
   \<and> createTableSql (m\<lparr>schema := JNull\<rparr>) t
       = Inr (''CREATE TABLE IF NOT EXISTS '' @ t @ '' ('' @ id_attribute_of m
              @ '' INTEGER PRIMARY KEY AUTOINCREMENT)'')
   \<and> createTableSql (m\<lparr>schema := JObj []\<rparr>) t
       = Inr (''CREATE TABLE IF NOT EXISTS '' @ t @ '' ('' @ id_attribute_of m
              @ '' INTEGER PRIMARY KEY AUTOINCREMENT)'')
   \<and> createTableSql (m\<lparr>schema := JObj [(''properties'', JObj [])]\<rparr>) t
       = Inr (''CREATE TABLE IF NOT EXISTS '' @ t @ '' ('' @ id_attribute_of m
              @ '' INTEGER PRIMARY KEY AUTOINCREMENT)'')"
proof (intro conjI)
  show "createTableSql
     \<lparr>name = ''user'', table = None, idAttribute = Some ''id'',
      schema = JObj [(''properties'', JObj
        [(''id'', JObj [(''type'', JStr ''integer'')]),
         (''name'', JObj [(''type'', JStr ''string''), (''required'', JBool True)]),
         (''email'', JObj [(''type'', JStr ''string''), (''unique'', JBool True)])])]\<rparr> ''t''
   = Inr ''CREATE TABLE IF NOT EXISTS t (id INTEGER PRIMARY KEY AUTOINCREMENT, name TEXT NOT NULL, email TEXT UNIQUE)''"
    by (simp add: createTableSql_def or_else_def get_prop_def id_attribute_of_def
        synthesized_id_def column_def_def sql_type_def default_clause_def)
qed (simp_all add: createTableSql_def or_else_def get_prop_def id_attribute_of_def
      synthesized_id_def)

text \<open>
  Claim C1 says that a schema which declares the id attribute always gets a column for it
  with PRIMARY KEY AUTOINCREMENT, wherever the property is declared. The loop skips the
  id attribute whenever a column was collected before it, so an id property declared after
  another property gets no column at all: for \<^verbatim>\<open>{name: {type: 'string'}, id: {type:
  'integer'}}\<close> the statement has the column \<^verbatim>\<open>name TEXT\<close> only.
\<close>

theorem createTableSql_id_not_first:
  "createTableSql
     \<lparr>name = ''user'', table = None, idAttribute = Some ''id'',
      schema = JObj [(''properties'', JObj
        [(''name'', JObj [(''type'', JStr ''string'')]),
         (''id'', JObj [(''type'', JStr ''integer'')])])]\<rparr> ''t''
   = Inr ''CREATE TABLE IF NOT EXISTS t (name TEXT)''"
  by (simp add: createTableSql_def or_else_def get_prop_def id_attribute_of_def
      synthesized_id_def column_def_def sql_type_def default_clause_def)

section \<open>The query compiler: properties\<close>

lemma apply_op_unrecognized: "op \<notin> set recognized_ops \<Longrightarrow> apply_op b f op v = b"
  by (simp add: recognized_ops_def apply_op_def)

lemma cond_loop_filter:
  "op \<notin> set recognized_ops \<Longrightarrow> cond_loop b f (filter (\<lambda>e. fst e \<noteq> op) ops) = cond_loop b f ops"
  by (induction ops arbitrary: b) (auto simp: apply_op_unrecognized)

lemma js_entries_drop_op:
  "op \<notin> set recognized_ops \<Longrightarrow>
   (case js_entries (drop_op op c) of Inl e \<Rightarrow> Inl e | Inr ops \<Rightarrow> fields_loop (cond_loop b f ops) rest)
   = (case js_entries c of Inl e \<Rightarrow> Inl e | Inr ops \<Rightarrow> fields_loop (cond_loop b f ops) rest)"
  by (cases c) (simp_all add: cond_loop_filter)

lemma fields_loop_remove:
  "op \<notin> set recognized_ops \<Longrightarrow>
   fields_loop b (map (\<lambda>kv. if fst kv = field then (fst kv, drop_op op (snd kv)) else kv) kvs)
   = fields_loop b kvs"
proof (induction kvs arbitrary: b)
  case Nil
  then show ?case by simp
next
  case (Cons kv kvs)
  obtain k c where kv: "kv = (k, c)" by (cases kv)
  let ?F = "\<lambda>kv. if fst kv = field then (fst kv, drop_op op (snd kv)) else kv"
  let ?c' = "if k = field then drop_op op c else c"
  have "fields_loop b (map ?F (kv # kvs)) =
        (case js_entries ?c' of Inl e \<Rightarrow> Inl e
         | Inr ops \<Rightarrow> fields_loop (cond_loop b k ops) (map ?F kvs))"
    using kv by (cases "k = field") (simp_all cong: sum.case_cong)
  also have "\<dots> = (case js_entries c of Inl e \<Rightarrow> Inl e
         | Inr ops \<Rightarrow> fields_loop (cond_loop b k ops) (map ?F kvs))"
    using js_entries_drop_op[OF Cons.prems] by simp
  also have "\<dots> = (case js_entries c of Inl e \<Rightarrow> Inl e
         | Inr ops \<Rightarrow> fields_loop (cond_loop b k ops) kvs)"
    by (simp add: Cons.IH[OF Cons.prems] cong: sum.case_cong)
  also have "\<dots> = fields_loop b (kv # kvs)"
    using kv by simp
  finally show ?case .
qed

lemma map_of_remove:
  "k \<noteq> field \<Longrightarrow>
   map_of (map (\<lambda>kv. if fst kv = field then (fst kv, drop_op op (snd kv)) else kv) kvs) k = map_of kvs k"
  by (induction kvs) auto

lemma map_of_remove_None:
  "(map_of (map (\<lambda>kv. if fst kv = field then (fst kv, drop_op op (snd kv)) else kv) kvs) k = None)
   = (map_of kvs k = None)"
  by (induction kvs) auto

lemma js_in_remove: "js_in k (remove_entry field op q) = js_in k q"
  by (cases q) (simp_all add: map_of_remove_None)

lemma get_prop_remove: "k \<noteq> field \<Longrightarrow> get_prop (remove_entry field op q) k = get_prop q k"
  by (cases q) (simp_all add: get_prop_def map_of_remove)

lemma filter_map_remove:
  "filter (\<lambda>kv. fst kv \<noteq> k)
     (map (\<lambda>kv. if fst kv = field then (fst kv, drop_op op (snd kv)) else kv) kvs)
   = map (\<lambda>kv. if fst kv = field then (fst kv, drop_op op (snd kv)) else kv)
       (filter (\<lambda>kv. fst kv \<noteq> k) kvs)"
  by (induction kvs) auto

lemma js_delete_remove: "js_delete (remove_entry field op q) k = remove_entry field op (js_delete q k)"
  by (cases q) (simp_all add: filter_map_remove)

lemma js_entries_remove:
  "op \<notin> set recognized_ops \<Longrightarrow>
   (case js_entries (remove_entry field op q) of Inl e \<Rightarrow> Inl e | Inr es \<Rightarrow> fields_loop b es)
   = (case js_entries q of Inl e \<Rightarrow> Inl e | Inr es \<Rightarrow> fields_loop b es)"
  by (cases q) (simp_all add: fields_loop_remove)

lemma limit_step_remove:
  "field \<noteq> ''limit'' \<Longrightarrow>
   limit_step (b, remove_entry field op q) = lift_remove field op (limit_step (b, q))"
  by (simp add: limit_step_def lift_remove_def js_in_remove get_prop_remove js_delete_remove
      split: sum.splits)

lemma offset_step_remove:
  "field \<noteq> ''offset'' \<Longrightarrow>
   offset_step (b, remove_entry field op q) = lift_remove field op (offset_step (b, q))"
  by (simp add: offset_step_def lift_remove_def js_in_remove get_prop_remove js_delete_remove
      split: sum.splits)

lemma orderBy_step_remove:
  "field \<noteq> ''orderBy'' \<Longrightarrow>
   orderBy_step (b, remove_entry field op q) = lift_remove field op (orderBy_step (b, q))"
  by (simp add: orderBy_step_def lift_remove_def js_in_remove get_prop_remove js_delete_remove
      split: sum.splits)

lemma head_steps_remove:
  assumes "field \<notin> set reserved_keys"
  shows "head_steps b (remove_entry field op q) = lift_remove field op (head_steps b q)"
proof -
  from assms have ne: "field \<noteq> ''limit''" "field \<noteq> ''offset''" "field \<noteq> ''orderBy''"
    by (auto simp: reserved_keys_def)
  show ?thesis
  proof (cases "limit_step (b, q)")
    case (Inl e)
    then show ?thesis by (simp add: head_steps_def limit_step_remove[OF ne(1)] lift_remove_def)
  next
    case (Inr bq1)
    obtain b1 q1 where bq1: "bq1 = (b1, q1)" by (cases bq1)
    show ?thesis
    proof (cases "offset_step (b1, q1)")
      case (Inl e)
      then show ?thesis using Inr bq1
        by (simp add: head_steps_def limit_step_remove[OF ne(1)] offset_step_remove[OF ne(2)]
            lift_remove_def)
    next
      case inr2: (Inr bq2)
      obtain b2 q2 where bq2: "bq2 = (b2, q2)" by (cases bq2)
      show ?thesis using Inr bq1 inr2 bq2
        by (simp add: head_steps_def limit_step_remove[OF ne(1)] offset_step_remove[OF ne(2)]
            orderBy_step_remove[OF ne(3)] lift_remove_def)
    qed
  qed
qed

lemma filter_absent: "map_of kvs k = None \<Longrightarrow> filter (\<lambda>kv. fst kv \<noteq> k) kvs = kvs"
  by (induction kvs) (auto split: if_splits)

lemma limit_step_obj:
  "limit_step (b, JObj kvs) =
     Inr (case map_of kvs ''limit'' of None \<Rightarrow> b | Some l \<Rightarrow> b @ [Limit l],
          JObj (filter (\<lambda>kv. fst kv \<noteq> ''limit'') kvs))"
  by (auto simp: limit_step_def get_prop_def filter_absent)

lemma offset_step_obj:
  "offset_step (b, JObj kvs) =
     Inr (case map_of kvs ''offset'' of None \<Rightarrow> b | Some l \<Rightarrow> b @ [Offset l],
          JObj (filter (\<lambda>kv. fst kv \<noteq> ''offset'') kvs))"
  by (auto simp: offset_step_def get_prop_def filter_absent)

lemma orderBy_step_obj:
  "orderBy_step (b, JObj kvs) =
     (case (case map_of kvs ''orderBy'' of
              None \<Rightarrow> Inr b
            | Some ob \<Rightarrow> (case js_iter ob of Inl e \<Rightarrow> Inl e | Inr pairs \<Rightarrow> orderBy_loop b pairs)) of
        Inl e \<Rightarrow> Inl e
      | Inr b' \<Rightarrow> Inr (b', JObj (filter (\<lambda>kv. fst kv \<noteq> ''orderBy'') kvs)))"
proof (cases "map_of kvs ''orderBy''")
  case None
  then show ?thesis by (simp add: orderBy_step_def filter_absent)
next
  case (Some ob)
  then show ?thesis by (simp add: orderBy_step_def get_prop_def split: sum.splits)
qed

lemma filter_head_keys:
  "filter (\<lambda>kv. fst kv \<noteq> ''orderBy'')
     (filter (\<lambda>kv. fst kv \<noteq> ''offset'') (filter (\<lambda>kv. fst kv \<noteq> ''limit'') kvs))
   = filter (\<lambda>kv. fst kv \<notin> set head_keys) kvs"
  by (induction kvs) (auto simp: head_keys_def)

lemma head_steps_obj:
  "head_steps b (JObj kvs) =
     (case head_builder b (map_of kvs) of
        Inl e \<Rightarrow> Inl e
      | Inr b' \<Rightarrow> Inr (b', JObj (filter (\<lambda>kv. fst kv \<notin> set head_keys) kvs)))"
proof -
  define k1 where "k1 = filter (\<lambda>kv. fst kv \<noteq> ''limit'') kvs"
  define k2 where "k2 = filter (\<lambda>kv. fst kv \<noteq> ''offset'') k1"
  define b1 where "b1 = (case map_of kvs ''limit'' of None \<Rightarrow> b | Some l \<Rightarrow> b @ [Limit l])"
  define b2 where "b2 = (case map_of kvs ''offset'' of None \<Rightarrow> b1 | Some l \<Rightarrow> b1 @ [Offset l])"
  have m1: "map_of k1 ''offset'' = map_of kvs ''offset''"
    by (simp add: k1_def map_of_filter_other)
  have m2: "map_of k2 ''orderBy'' = map_of kvs ''orderBy''"
    by (simp add: k1_def k2_def map_of_filter_other del: filter_filter)
  have s1: "limit_step (b, JObj kvs) = Inr (b1, JObj k1)"
    by (simp add: limit_step_obj b1_def k1_def)
  have s2: "offset_step (b1, JObj k1) = Inr (b2, JObj k2)"
    by (simp add: offset_step_obj b2_def k2_def m1)
  have k3: "filter (\<lambda>kv. fst kv \<noteq> ''orderBy'') k2 = filter (\<lambda>kv. fst kv \<notin> set head_keys) kvs"
    unfolding k2_def k1_def by (rule filter_head_keys)
  have hb: "head_builder b (map_of kvs) =
        (case map_of kvs ''orderBy'' of
           None \<Rightarrow> Inr b2
         | Some ob \<Rightarrow> (case js_iter ob of Inl e \<Rightarrow> Inl e | Inr pairs \<Rightarrow> orderBy_loop b2 pairs))"
    unfolding head_builder_def b1_def b2_def Let_def by (rule refl)
  show ?thesis
    by (simp add: head_steps_def s1 s2 orderBy_step_obj m2 k3 hb cong: sum.case_cong)
qed

lemma map_of_filter_in: "P k \<Longrightarrow> map_of (filter (\<lambda>kv. P (fst kv)) kvs) k = map_of kvs k"
  by (induction kvs) auto

lemma map_of_filter_out: "\<not> P k \<Longrightarrow> map_of (filter (\<lambda>kv. P (fst kv)) kvs) k = None"
  by (induction kvs) auto

lemma map_of_head_part:
  "k \<in> set head_keys \<Longrightarrow> map_of (filter (\<lambda>kv. fst kv \<in> set head_keys) kvs) k = map_of kvs k"
  by (rule map_of_filter_in[where P = "\<lambda>k. k \<in> set head_keys"])

lemma map_of_field_part:
  "k \<in> set reserved_keys \<Longrightarrow> map_of (filter (\<lambda>kv. fst kv \<notin> set reserved_keys) kvs) k = None"
  by (rule map_of_filter_out[where P = "\<lambda>k. k \<notin> set reserved_keys"]) simp

lemma toSql_head_part: "toSql b (head_part kvs) = head_builder b (map_of kvs)"
proof -
  have k: "''limit'' \<in> set head_keys" "''offset'' \<in> set head_keys" "''orderBy'' \<in> set head_keys"
    by (simp_all add: head_keys_def)
  have m: "head_builder b (map_of (filter (\<lambda>kv. fst kv \<in> set head_keys) kvs))
           = head_builder b (map_of kvs)"
    by (simp add: head_builder_def map_of_head_part[OF k(1)] map_of_head_part[OF k(2)]
        map_of_head_part[OF k(3)])
  have e: "filter (\<lambda>kv. fst kv \<notin> set head_keys) (filter (\<lambda>kv. fst kv \<in> set head_keys) kvs) = []"
    by (induction kvs) auto
  show ?thesis
    by (simp add: toSql.simps[of b] plainCopy_id_aux head_part_def head_steps_obj m e
        del: filter_filter split: sum.splits)
qed

lemma toSql_field_part:
  "toSql b (field_part kvs) = fields_loop b (filter (\<lambda>kv. fst kv \<notin> set reserved_keys) kvs)"
proof -
  have k: "''limit'' \<in> set reserved_keys" "''offset'' \<in> set reserved_keys"
    "''orderBy'' \<in> set reserved_keys" "''where'' \<in> set reserved_keys"
    by (simp_all add: reserved_keys_def)
  note n = map_of_field_part[OF k(1)] map_of_field_part[OF k(2)] map_of_field_part[OF k(3)]
    map_of_field_part[OF k(4)]
  have m: "head_builder b (map_of (filter (\<lambda>kv. fst kv \<notin> set reserved_keys) kvs)) = Inr b"
    by (simp add: head_builder_def n)
  have e: "filter (\<lambda>kv. fst kv \<notin> set head_keys) (filter (\<lambda>kv. fst kv \<notin> set reserved_keys) kvs)
           = filter (\<lambda>kv. fst kv \<notin> set reserved_keys) kvs"
    by (induction kvs) (auto simp: head_keys_def reserved_keys_def)
  show ?thesis
    by (simp add: toSql.simps[of b] plainCopy_id_aux field_part_def head_steps_obj m e n
        del: filter_filter)
qed

lemma map_of_map_where:
  "map_of (map (\<lambda>kv. if fst kv = ''where'' then (fst kv, g (snd kv)) else kv) kvs) k
   = (if k = ''where'' then map_option g (map_of kvs k) else map_of kvs k)"
  by (induction kvs) auto

lemma filter_map_where:
  "filter (\<lambda>kv. P (fst kv)) (map (\<lambda>kv. if fst kv = ''where'' then (fst kv, g (snd kv)) else kv) kvs)
   = map (\<lambda>kv. if fst kv = ''where'' then (fst kv, g (snd kv)) else kv) (filter (\<lambda>kv. P (fst kv)) kvs)"
  by (induction kvs) auto

lemma filter_where_map_where:
  "filter (\<lambda>kv. fst kv \<noteq> ''where'')
     (map (\<lambda>kv. if fst kv = ''where'' then (fst kv, g (snd kv)) else kv) kvs)
   = filter (\<lambda>kv. fst kv \<noteq> ''where'') kvs"
  by (induction kvs) auto

text \<open>
  Replacing the nested \<^verbatim>\<open>where\<close> value by one that compiles alike does not change
  what the query compiles to.
\<close>

lemma toSql_where_cong:
  assumes "\<And>b w. toSql b (g w) = toSql b w"
  shows "toSql b (JObj (map (\<lambda>kv. if fst kv = ''where'' then (fst kv, g (snd kv)) else kv) kvs))
         = toSql b (JObj kvs)"
proof -
  let ?F = "\<lambda>kv. if fst kv = ''where'' then (fst kv, g (snd kv)) else kv"
  let ?H = "\<lambda>kv. fst kv \<notin> set head_keys"
  have hb: "head_builder b (map_of (map ?F kvs)) = head_builder b (map_of kvs)"
    by (simp add: head_builder_def map_of_map_where)
  have fl: "filter ?H (map ?F kvs) = map ?F (filter ?H kvs)"
    by (rule filter_map_where[where P = "\<lambda>k. k \<notin> set head_keys"])
  have l: "toSql b (JObj (map ?F kvs)) =
        (case head_builder b (map_of kvs) of
           Inl e \<Rightarrow> Inl e
         | Inr b3 \<Rightarrow>
             (case map_of (filter ?H kvs) ''where'' of
                None \<Rightarrow> fields_loop b3 (map ?F (filter ?H kvs))
              | Some w \<Rightarrow>
                  (case toSql b3 (g w) of
                     Inl e \<Rightarrow> Inl e
                   | Inr b4 \<Rightarrow> fields_loop b4 (filter (\<lambda>kv. fst kv \<noteq> ''where'') (filter ?H kvs)))))"
    by (simp add: toSql.simps[of b "JObj (map ?F kvs)"] plainCopy_id_aux head_steps_obj hb fl
        map_of_map_where get_prop_def filter_where_map_where
        del: filter_filter split: sum.splits option.splits)
  have n: "map_of (filter ?H kvs) ''where'' = None \<Longrightarrow> map ?F (filter ?H kvs) = filter ?H kvs"
    by (induction kvs) (auto split: if_splits)
  have r: "toSql b (JObj kvs) =
        (case head_builder b (map_of kvs) of
           Inl e \<Rightarrow> Inl e
         | Inr b3 \<Rightarrow>
             (case map_of (filter ?H kvs) ''where'' of
                None \<Rightarrow> fields_loop b3 (filter ?H kvs)
              | Some w \<Rightarrow>
                  (case toSql b3 w of
                     Inl e \<Rightarrow> Inl e
                   | Inr b4 \<Rightarrow> fields_loop b4 (filter (\<lambda>kv. fst kv \<noteq> ''where'') (filter ?H kvs)))))"
    by (simp add: toSql.simps[of b "JObj kvs"] plainCopy_id_aux head_steps_obj get_prop_def
        del: filter_filter split: sum.splits option.splits)
  show ?thesis
    unfolding l r using n by (auto simp: assms split: sum.splits option.splits)
qed

lemma toSql_remove_entry:
  assumes "op \<notin> set recognized_ops" and "field \<notin> set reserved_keys"
  shows "toSql builder (remove_entry field op query) = toSql builder query"
proof -
  from assms(2) have nw: "field \<noteq> ''where''" by (auto simp: reserved_keys_def)
  show ?thesis
  proof (cases "head_steps builder query")
    case (Inl e)
    then show ?thesis
      by (simp add: toSql.simps[of builder] plainCopy_id_aux head_steps_remove[OF assms(2)]
          lift_remove_def)
  next
    case (Inr bq)
    obtain b3 q3 where bq: "bq = (b3, q3)" by (cases bq)
    have hs: "head_steps builder (remove_entry field op query) = Inr (b3, remove_entry field op q3)"
      using Inr bq by (simp add: head_steps_remove[OF assms(2)] lift_remove_def)
    show ?thesis
      using Inr bq hs js_entries_remove[OF assms(1)]
      by (simp add: toSql.simps[of builder] plainCopy_id_aux js_in_remove
          get_prop_remove[OF nw[symmetric]] js_delete_remove split: sum.splits)
  qed
qed

text \<open>
  Claim C7. An entry of a field predicate whose operator is none of the twelve recognised
  symbols emits no clause and raises no error: the switch leaves the builder as it is, and
  compiling the query gives the same outcome, calls or error, as compiling the query with
  that entry removed from the condition of its field. This holds for a field predicate of
  the query itself (depth 0) and for one inside nested \<^verbatim>\<open>where\<close> objects, at any
  depth.
\<close>

theorem toSql_unrecognized_op:
  assumes "op \<notin> set recognized_ops" and "field \<notin> set reserved_keys"
  shows "apply_op builder field op v = builder
         \<and> toSql builder (remove_nested depth field op query) = toSql builder query"
proof
  show "apply_op builder field op v = builder" using assms(1) by (rule apply_op_unrecognized)
next
  show "toSql builder (remove_nested depth field op query) = toSql builder query"
  proof (induction depth arbitrary: builder query)
    case 0
    show ?case using assms by (simp add: toSql_remove_entry)
  next
    case (Suc d)
    show ?case
    proof (cases query)
      case (JObj kvs)
      then show ?thesis
        using toSql_where_cong[where g = "remove_nested d field op", OF Suc.IH] by simp
    qed simp_all
  qed
qed

theorem toSql_unrecognized_op_witness:
  "''~='' \<notin> set recognized_ops \<and> ''age'' \<notin> set reserved_keys
   \<and> apply_op [] ''age'' ''~='' (JNum 1) = ([] :: builder)
   \<and> remove_nested 1 ''age'' ''~=''
        (JObj [(''where'', JObj [(''age'', JObj [(''>='', JNum 18), (''~='', JNum 1)])])])
       = JObj [(''where'', JObj [(''age'', JObj [(''>='', JNum 18)])])]
   \<and> toSql [] (JObj [(''where'', JObj [(''age'', JObj [(''>='', JNum 18)])])])
       = toSql [] (JObj [(''where'', JObj [(''age'', JObj [(''>='', JNum 18), (''~='', JNum 1)])])])
   \<and> toSql [] (JObj [(''where'', JObj [(''age'', JObj [(''>='', JNum 18), (''~='', JNum 1)])])])
       = Inr [Where ''age'' ''>='' (JNum 18)]"
proof -
  let ?q = "JObj [(''where'', JObj [(''age'', JObj [(''>='', JNum 18), (''~='', JNum 1)])])]"
  have a: "''~='' \<notin> set recognized_ops" by (simp add: recognized_ops_def)
  have b: "''age'' \<notin> set reserved_keys" by (simp add: reserved_keys_def)
  have r: "remove_nested (Suc 0) ''age'' ''~='' ?q
           = JObj [(''where'', JObj [(''age'', JObj [(''>='', JNum 18)])])]"
    by simp
  have c: "toSql [] ?q = Inr [Where ''age'' ''>='' (JNum 18)]"
    by (simp add: toSql.simps head_steps_def limit_step_def offset_step_def orderBy_step_def
        get_prop_def apply_op_def)
  show ?thesis
    using toSql_unrecognized_op[OF a b, where builder = "[]" and v = "JNum 1"
        and depth = "Suc 0" and query = ?q] a b c r
    by simp
qed

text \<open>
  The compilation of an object query, unfolded once: the \<^verbatim>\<open>limit\<close>, \<^verbatim>\<open>offset\<close> and
  \<^verbatim>\<open>orderBy\<close> calls, the recursive call on \<^verbatim>\<open>where\<close> when the key is present, and
  the loop over the remaining fields. Every stage only appends calls to the builder.
\<close>

lemma toSql_where_stages:
  assumes "map_of kvs ''where'' = Some w"
  shows "toSql b (JObj kvs) =
           (case toSql b (head_part kvs) of
              Inl e \<Rightarrow> Inl e
            | Inr b1 \<Rightarrow>
                (case toSql b1 w of
                   Inl e \<Rightarrow> Inl e
                 | Inr b2 \<Rightarrow> toSql b2 (field_part kvs)))"
proof -
  have w: "map_of (filter (\<lambda>kv. fst kv \<notin> set head_keys) kvs) ''where'' = Some w"
    using assms map_of_filter_in[where P = "\<lambda>k. k \<notin> set head_keys" and k = "''where''" and kvs = kvs]
    by (simp add: head_keys_def)
  have e: "filter (\<lambda>kv. fst kv \<noteq> ''where'') (filter (\<lambda>kv. fst kv \<notin> set head_keys) kvs)
           = filter (\<lambda>kv. fst kv \<notin> set reserved_keys) kvs"
    by (induction kvs) (auto simp: head_keys_def reserved_keys_def)
  show ?thesis
    by (simp add: toSql.simps[of b "JObj kvs"] plainCopy_id_aux head_steps_obj w e get_prop_def
        toSql_head_part toSql_field_part del: filter_filter split: sum.splits)
qed


lemma toSql_obj:
  "toSql b (JObj kvs) =
     (case head_builder b (map_of kvs) of
        Inl e \<Rightarrow> Inl e
      | Inr b3 \<Rightarrow>
          (case (case map_of kvs ''where'' of None \<Rightarrow> Inr b3 | Some w \<Rightarrow> toSql b3 w) of
             Inl e \<Rightarrow> Inl e
           | Inr b4 \<Rightarrow> fields_loop b4 (filter (\<lambda>kv. fst kv \<notin> set reserved_keys) kvs)))"
proof (cases "map_of kvs ''where''")
  case None
  let ?H = "\<lambda>kv. fst kv \<notin> set head_keys"
  have w: "map_of (filter ?H kvs) ''where'' = None"
    using None map_of_filter_in[where P = "\<lambda>k. k \<notin> set head_keys" and k = "''where''" and kvs = kvs]
    by (simp add: head_keys_def)
  have e: "filter ?H kvs = filter (\<lambda>kv. fst kv \<notin> set reserved_keys) kvs"
    using None by (induction kvs) (auto simp: head_keys_def reserved_keys_def split: if_splits)
  have "toSql b (JObj kvs) =
      (case head_builder b (map_of kvs) of Inl e \<Rightarrow> Inl e
       | Inr b3 \<Rightarrow> fields_loop b3 (filter ?H kvs))"
    by (simp add: toSql.simps[of b "JObj kvs"] plainCopy_id_aux head_steps_obj w
        del: filter_filter split: sum.splits)
  then show ?thesis using None by (simp add: e cong: sum.case_cong)
next
  case (Some w0)
  have "toSql b (JObj kvs) =
      (case toSql b (head_part kvs) of Inl e \<Rightarrow> Inl e
       | Inr b1 \<Rightarrow> (case toSql b1 w0 of Inl e \<Rightarrow> Inl e | Inr b2 \<Rightarrow> toSql b2 (field_part kvs)))"
    using Some by (rule toSql_where_stages)
  then show ?thesis using Some by (simp add: toSql_head_part toSql_field_part cong: sum.case_cong)
qed

lemma apply_op_prefix: "prefix b (apply_op b f op v)"
  by (simp add: apply_op_def)

lemma cond_loop_prefix: "prefix b (cond_loop b f ops)"
proof (induction ops arbitrary: b)
  case Nil
  show ?case by simp
next
  case (Cons e ops)
  obtain op v where e: "e = (op, v)" by (cases e)
  show ?case using Cons[of "apply_op b f op v"] apply_op_prefix[of b f op v] e
    by (auto intro: prefix_order.trans)
qed

lemma fields_loop_prefix: "fields_loop b es = Inr r \<Longrightarrow> prefix b r"
proof (induction es arbitrary: b)
  case Nil
  then show ?case by simp
next
  case (Cons e es)
  obtain f c where e: "e = (f, c)" by (cases e)
  from Cons.prems e obtain ops where o: "js_entries c = Inr ops"
    and l: "fields_loop (cond_loop b f ops) es = Inr r"
    by (auto split: sum.splits)
  show ?case using Cons.IH[OF l] cond_loop_prefix[of b f ops] by (auto intro: prefix_order.trans)
qed

lemma orderBy_loop_prefix: "orderBy_loop b es = Inr r \<Longrightarrow> prefix b r"
proof (induction es arbitrary: b)
  case Nil
  then show ?case by simp
next
  case (Cons e es)
  from Cons.prems obtain parts d where "js_iter e = Inr parts"
    and "nth_or JUndefined parts 1 = JStr d"
    and l: "orderBy_loop (b @ [OrderBy (nth_or JUndefined parts 0) (toLowerCase d)]) es = Inr r"
    by (auto split: sum.splits jsval.splits)
  from Cons.IH[OF l] show ?case by (auto dest: append_prefixD)
qed

lemma head_builder_prefix: "head_builder b m = Inr r \<Longrightarrow> prefix b r"
  by (auto simp: head_builder_def Let_def split: option.splits sum.splits
      dest!: orderBy_loop_prefix dest: append_prefixD)

lemma head_builder_limit:
  "head_builder b m = Inr r \<Longrightarrow> m ''limit'' = Some l \<Longrightarrow> Limit l \<in> set r"
  by (auto simp: head_builder_def Let_def prefix_def split: option.splits sum.splits
      dest!: orderBy_loop_prefix)

lemma head_builder_offset:
  "head_builder b m = Inr r \<Longrightarrow> m ''offset'' = Some l \<Longrightarrow> Offset l \<in> set r"
  by (auto simp: head_builder_def Let_def prefix_def split: option.splits sum.splits
      dest!: orderBy_loop_prefix)

lemma limit_step_prefix: "limit_step (b, q) = Inr (b', q') \<Longrightarrow> prefix b b'"
  by (auto simp: limit_step_def split: sum.splits if_splits)

lemma offset_step_prefix: "offset_step (b, q) = Inr (b', q') \<Longrightarrow> prefix b b'"
  by (auto simp: offset_step_def split: sum.splits if_splits)

lemma orderBy_step_prefix: "orderBy_step (b, q) = Inr (b', q') \<Longrightarrow> prefix b b'"
  by (auto simp: orderBy_step_def split: sum.splits if_splits dest: orderBy_loop_prefix)

lemma head_steps_prefix: "head_steps b q = Inr (b', q') \<Longrightarrow> prefix b b'"
  by (auto simp: head_steps_def split: sum.splits
      dest!: limit_step_prefix offset_step_prefix orderBy_step_prefix intro: prefix_order.trans)

lemma toSql_prefix: "toSql b q = Inr r \<Longrightarrow> prefix b r"
proof (induction b q arbitrary: r rule: toSql.induct)
  case (1 builder query0)
  from "1.prems" obtain b3 q3 present b4 entries where
    h: "head_steps builder (plainCopy query0) = Inr (b3, q3)" and
    p: "js_in ''where'' q3 = Inr present" and
    w: "(if present then toSql b3 (get_prop q3 ''where'') else Inr b3) = Inr b4" and
    f: "fields_loop b4 entries = Inr r"
    by (subst (asm) toSql.simps) (auto split: sum.splits prod.splits)
  have "prefix b3 b4"
  proof (cases present)
    case True
    with w have "toSql b3 (get_prop q3 ''where'') = Inr b4" by simp
    with "1.IH"[OF h refl p True] show ?thesis by simp
  next
    case False
    with w show ?thesis by simp
  qed
  with head_steps_prefix[OF h] fields_loop_prefix[OF f] show ?case
    by (auto intro: prefix_order.trans)
qed

lemma orderBy_loop_member:
  "orderBy_loop b es = Inr r \<Longrightarrow> JArr [n, JStr d] \<in> set es \<Longrightarrow> OrderBy n (toLowerCase d) \<in> set r"
proof (induction es arbitrary: b)
  case Nil
  then show ?case by simp
next
  case (Cons e es)
  from Cons.prems(1) obtain parts d' where i: "js_iter e = Inr parts"
    and dd: "nth_or JUndefined parts 1 = JStr d'"
    and l: "orderBy_loop (b @ [OrderBy (nth_or JUndefined parts 0) (toLowerCase d')]) es = Inr r"
    by (auto split: sum.splits jsval.splits)
  show ?case
  proof (cases "e = JArr [n, JStr d]")
    case True
    with i dd have "parts = [n, JStr d]" "d' = d" by (auto simp: nth_or_def)
    with l have "prefix (b @ [OrderBy n (toLowerCase d)]) r"
      by (auto simp: nth_or_def dest: orderBy_loop_prefix)
    then show ?thesis by (auto simp: prefix_def)
  next
    case False
    with Cons.prems(2) have "JArr [n, JStr d] \<in> set es" by simp
    with Cons.IH[OF l] show ?thesis by simp
  qed
qed

lemma head_builder_orderBy:
  "head_builder b m = Inr r \<Longrightarrow> m ''orderBy'' = Some (JArr pairs) \<Longrightarrow>
   JArr [n, JStr d] \<in> set pairs \<Longrightarrow> OrderBy n (toLowerCase d) \<in> set r"
  by (auto simp: head_builder_def Let_def split: sum.splits dest: orderBy_loop_member)

text \<open>
  Claim C2 says that the \<^verbatim>\<open>limit\<close>, \<^verbatim>\<open>offset\<close> and \<^verbatim>\<open>orderBy\<close> entries of a nested
  \<^verbatim>\<open>where\<close> object are ignored. They are not: the recursive call hands them to the same
  builder. With an outer limit of 10 and a nested limit of 5 the builder receives
  \<^verbatim>\<open>limit(10)\<close> and then \<^verbatim>\<open>limit(5)\<close>; without the nested entry it receives the
  first call only.
\<close>

theorem toSql_nested_limit_applied:
  "toSql [] (JObj [(''limit'', JNum 10),
                   (''where'', JObj [(''limit'', JNum 5), (''age'', JObj [(''>='', JNum 18)])])])
     = Inr [Limit (JNum 10), Limit (JNum 5), Where ''age'' ''>='' (JNum 18)]
   \<and> toSql [] (JObj [(''limit'', JNum 10),
                     (''where'', JObj [(''age'', JObj [(''>='', JNum 18)])])])
     = Inr [Limit (JNum 10), Where ''age'' ''>='' (JNum 18)]"
  by (simp add: toSql.simps head_steps_def limit_step_def offset_step_def orderBy_step_def
      get_prop_def apply_op_def)

text \<open>
  Claim C2, amended. For a query whose \<^verbatim>\<open>where\<close> is a nested object, the builder
  receives, in this order: the calls for the outer \<^verbatim>\<open>limit\<close>, \<^verbatim>\<open>offset\<close> and
  \<^verbatim>\<open>orderBy\<close>; the calls for the \<^verbatim>\<open>limit\<close>, \<^verbatim>\<open>offset\<close> and \<^verbatim>\<open>orderBy\<close> of the
  nested object (\<^const>\<open>head_builder\<close> on its properties: \<^verbatim>\<open>limit(l)\<close>, then
  \<^verbatim>\<open>offset(o)\<close>, then one \<^verbatim>\<open>orderBy\<close> per pair); the compilation of a \<^verbatim>\<open>where\<close> of
  the nested object, if it has one; the field predicates of the nested object; the field
  predicates of the outer query. An error of a stage is the error of the whole. In
  particular, when the compilation succeeds, the resulting builder holds the call
  \<^verbatim>\<open>limit(l)\<close> for a nested limit \<^verbatim>\<open>l\<close>, the call \<^verbatim>\<open>offset(o)\<close> for a nested offset
  \<^verbatim>\<open>o\<close>, and the call \<^verbatim>\<open>orderBy(name, direction.toLowerCase())\<close> for every pair of a
  nested \<^verbatim>\<open>orderBy\<close> array: none of them is ignored.
\<close>

theorem toSql_nested_where:
  assumes "map_of kvs ''where'' = Some (JObj wkvs)"
  shows "toSql b (JObj kvs) =
           (case head_builder b (map_of kvs) of
              Inl e \<Rightarrow> Inl e
            | Inr b1 \<Rightarrow>
                (case head_builder b1 (map_of wkvs) of
                   Inl e \<Rightarrow> Inl e
                 | Inr b2 \<Rightarrow>
                     (case (case map_of wkvs ''where'' of
                              None \<Rightarrow> Inr b2
                            | Some w2 \<Rightarrow> toSql b2 w2) of
                        Inl e \<Rightarrow> Inl e
                      | Inr b3 \<Rightarrow>
                          (case fields_loop b3 (filter (\<lambda>kv. fst kv \<notin> set reserved_keys) wkvs) of
                             Inl e \<Rightarrow> Inl e
                           | Inr b4 \<Rightarrow>
                               fields_loop b4 (filter (\<lambda>kv. fst kv \<notin> set reserved_keys) kvs)))))
         \<and> (toSql b (JObj kvs) = Inr r \<longrightarrow>
              (\<forall>l. map_of wkvs ''limit'' = Some l \<longrightarrow> Limit l \<in> set r)
            \<and> (\<forall>off. map_of wkvs ''offset'' = Some off \<longrightarrow> Offset off \<in> set r)
            \<and> (\<forall>pairs n d. map_of wkvs ''orderBy'' = Some (JArr pairs) \<and> JArr [n, JStr d] \<in> set pairs
                   \<longrightarrow> OrderBy n (toLowerCase d) \<in> set r))"
proof -
  let ?F = "\<lambda>xs. filter (\<lambda>kv. fst kv \<notin> set reserved_keys) xs"
  let ?inner = "\<lambda>b2. case map_of wkvs ''where'' of None \<Rightarrow> Inr b2 | Some w2 \<Rightarrow> toSql b2 w2"
  have eq: "toSql b (JObj kvs) =
           (case head_builder b (map_of kvs) of
              Inl e \<Rightarrow> Inl e
            | Inr b1 \<Rightarrow>
                (case head_builder b1 (map_of wkvs) of
                   Inl e \<Rightarrow> Inl e
                 | Inr b2 \<Rightarrow>
                     (case ?inner b2 of
                        Inl e \<Rightarrow> Inl e
                      | Inr b3 \<Rightarrow>
                          (case fields_loop b3 (?F wkvs) of
                             Inl e \<Rightarrow> Inl e
                           | Inr b4 \<Rightarrow> fields_loop b4 (?F kvs)))))"
    by (subst toSql_obj) (simp add: assms toSql_obj[of _ wkvs] split: sum.splits)
  have mem: "x \<in> set r" if r: "toSql b (JObj kvs) = Inr r"
    and x: "\<And>b1 b2. head_builder b1 (map_of wkvs) = Inr b2 \<Longrightarrow> x \<in> set b2" for x
  proof -
    from r eq obtain b1 b2 b3 b4 where
      h2: "head_builder b1 (map_of wkvs) = Inr b2" and
      i: "?inner b2 = Inr b3" and
      f1: "fields_loop b3 (?F wkvs) = Inr b4" and
      f2: "fields_loop b4 (?F kvs) = Inr r"
      by (auto split: sum.splits)
    have "prefix b2 b3" using i by (auto split: option.splits dest: toSql_prefix)
    with fields_loop_prefix[OF f1] fields_loop_prefix[OF f2] have "prefix b2 r"
      by (auto intro: prefix_order.trans)
    with x[OF h2] show ?thesis by (auto simp: prefix_def)
  qed
  show ?thesis
  proof (intro conjI impI allI)
    show "toSql b (JObj kvs) =
           (case head_builder b (map_of kvs) of
              Inl e \<Rightarrow> Inl e
            | Inr b1 \<Rightarrow>
                (case head_builder b1 (map_of wkvs) of
                   Inl e \<Rightarrow> Inl e
                 | Inr b2 \<Rightarrow>
                     (case ?inner b2 of
                        Inl e \<Rightarrow> Inl e
                      | Inr b3 \<Rightarrow>
                          (case fields_loop b3 (?F wkvs) of
                             Inl e \<Rightarrow> Inl e
                           | Inr b4 \<Rightarrow> fields_loop b4 (?F kvs)))))"
      by (rule eq)
  next
    fix l assume "toSql b (JObj kvs) = Inr r" "map_of wkvs ''limit'' = Some l"
    then show "Limit l \<in> set r" by (auto intro: mem head_builder_limit)
  next
    fix off assume "toSql b (JObj kvs) = Inr r" "map_of wkvs ''offset'' = Some off"
    then show "Offset off \<in> set r" by (auto intro: mem head_builder_offset)
  next
    fix pairs n d
    assume "toSql b (JObj kvs) = Inr r"
      "map_of wkvs ''orderBy'' = Some (JArr pairs) \<and> JArr [n, JStr d] \<in> set pairs"
    then show "OrderBy n (toLowerCase d) \<in> set r" by (auto intro: mem head_builder_orderBy)
  qed
qed

theorem toSql_nested_where_witness:
  "map_of [(''limit'', JNum 10),
           (''orderBy'', JArr [JArr [JStr ''name'', JStr ''ASC'']]),
           (''where'', JObj [(''limit'', JNum 5), (''offset'', JNum 2),
                             (''orderBy'', JArr [JArr [JStr ''age'', JStr ''DESC'']]),
                             (''age'', JObj [(''>='', JNum 18)])]),
           (''name'', JObj [(''=='', JStr ''x'')])] ''where''
     = Some (JObj [(''limit'', JNum 5), (''offset'', JNum 2),
                   (''orderBy'', JArr [JArr [JStr ''age'', JStr ''DESC'']]),
                   (''age'', JObj [(''>='', JNum 18)])])
   \<and> toSql [] (JObj [(''limit'', JNum 10),
                     (''orderBy'', JArr [JArr [JStr ''name'', JStr ''ASC'']]),
                     (''where'', JObj [(''limit'', JNum 5), (''offset'', JNum 2),
                                       (''orderBy'', JArr [JArr [JStr ''age'', JStr ''DESC'']]),
                                       (''age'', JObj [(''>='', JNum 18)])]),
                     (''name'', JObj [(''=='', JStr ''x'')])])
     = Inr [Limit (JNum 10), OrderBy (JStr ''name'') ''asc'',
            Limit (JNum 5), Offset (JNum 2), OrderBy (JStr ''age'') ''desc'',
            Where ''age'' ''>='' (JNum 18), Where ''name'' ''='' (JStr ''x'')]"
proof -
  let ?wkvs = "[(''limit'', JNum 5), (''offset'', JNum 2),
                (''orderBy'', JArr [JArr [JStr ''age'', JStr ''DESC'']]),
                (''age'', JObj [(''>='', JNum 18)])]"
  let ?kvs = "[(''limit'', JNum 10), (''orderBy'', JArr [JArr [JStr ''name'', JStr ''ASC'']]),
               (''where'', JObj ?wkvs), (''name'', JObj [(''=='', JStr ''x'')])]"
  have m: "map_of ?kvs ''where'' = Some (JObj ?wkvs)" by simp
  have lo: "toLowerCase ''ASC'' = ''asc''" "toLowerCase ''DESC'' = ''desc''"
    by (simp_all add: toLowerCase_def lower_char_def upper_chars_def lower_chars_def)
  show ?thesis
    using toSql_nested_where[OF m, where b = "[]"
        and r = "[Limit (JNum 10), OrderBy (JStr ''name'') ''asc'',
                  Limit (JNum 5), Offset (JNum 2), OrderBy (JStr ''age'') ''desc'',
                  Where ''age'' ''>='' (JNum 18), Where ''name'' ''='' (JStr ''x'')]"]
    by (simp add: head_builder_def reserved_keys_def nth_or_def lo apply_op_def)
qed
section \<open>The query compiler leaves the caller's objects alone\<close>

lemma prefix_update: "prefix s s' \<Longrightarrow> length s \<le> a \<Longrightarrow> prefix s (s'[a := x])"
  by (auto simp: prefix_def list_update_append)

lemma prefix_snoc_update:
  assumes "prefix (s @ [c]) s'"
  shows "prefix s (s'[length s := x])"
proof -
  from assms have "prefix s s'" by (meson append_prefixD)
  then show ?thesis by (rule prefix_update) simp
qed

text \<open>The copy only adds cells: the store it starts from is a prefix of the store it ends in.\<close>

lemma st_copy_prefix_aux:
  "prefix s (fst (st_copy n s v))"
  "prefix s (fst (st_copy_elems n s xs))"
  "prefix s (fst (st_copy_fields n s kvs))"
proof (induction n s v and n s xs and n s kvs rule: st_copy_st_copy_elems_st_copy_fields.induct)
  case (2 n s a)
  show ?case
  proof (cases "a < length s")
    case False
    then show ?thesis by simp
  next
    case True
    show ?thesis
    proof (cases "s ! a")
      case (CObj kvs)
      from "2.IH"(1)[OF True CObj] show ?thesis
        using True CObj by (auto split: prod.splits sum.splits dest: append_prefixD prefix_snoc_update)
    next
      case (CArr xs)
      from "2.IH"(2)[OF True CArr] show ?thesis
        using True CArr by (auto split: prod.splits sum.splits dest: append_prefixD prefix_snoc_update)
    qed
  qed
next
  case (9 n s x xs)
  show ?case
  proof (cases "st_copy n s (elem_val x)")
    case (Pair s1 r)
    show ?thesis
    proof (cases r)
      case (Inl e)
      with Pair "9.IH"(1) show ?thesis by simp
    next
      case (Inr y)
      from "9.IH"(2)[OF Pair[symmetric] Inr] "9.IH"(1) Pair Inr
      show ?thesis by (auto split: prod.splits sum.splits intro: prefix_order.trans)
    qed
  qed
next
  case (11 n s k v kvs)
  show ?case
  proof (cases "st_copy n s v")
    case (Pair s1 r)
    show ?thesis
    proof (cases r)
      case (Inl e)
      with Pair "11.IH"(1) show ?thesis by simp
    next
      case (Inr y)
      from "11.IH"(2)[OF Pair[symmetric] Inr] "11.IH"(1) Pair Inr
      show ?thesis by (auto split: prod.splits sum.splits intro: prefix_order.trans)
    qed
  qed
qed simp_all

text \<open>The working copy is a primitive or a new cell, never an object of the caller's.\<close>

lemma st_copy_fresh: "st_copy n s v = (s', Inr r) \<Longrightarrow> fresh_in s r"
  by (cases n; cases v) (auto simp: fresh_in_def split: if_splits cell.splits prod.splits sum.splits)

lemma st_delete_prefix: "fresh_in s q \<Longrightarrow> prefix s s' \<Longrightarrow> prefix s (st_delete s' q k)"
  by (cases q) (auto simp: fresh_in_def st_cell_def intro: prefix_update split: cell.splits option.splits)

lemma st_limit_step_prefix:
  "fresh_in s0 q \<Longrightarrow> prefix s0 s \<Longrightarrow> prefix s0 (fst (st_limit_step s b q))"
  by (auto simp: st_limit_step_def st_delete_prefix split: sum.splits)

lemma st_offset_step_prefix:
  "fresh_in s0 q \<Longrightarrow> prefix s0 s \<Longrightarrow> prefix s0 (fst (st_offset_step s b q))"
  by (auto simp: st_offset_step_def st_delete_prefix split: sum.splits)

lemma st_orderBy_step_prefix:
  "fresh_in s0 q \<Longrightarrow> prefix s0 s \<Longrightarrow> prefix s0 (fst (st_orderBy_step s b q))"
  by (auto simp: st_orderBy_step_def st_delete_prefix split: sum.splits)

lemma st_head_steps_prefix:
  assumes "fresh_in s0 q" and "prefix s0 s"
  shows "prefix s0 (fst (st_head_steps s b q))"
proof -
  obtain s1 r1 where l: "st_limit_step s b q = (s1, r1)" by (cases "st_limit_step s b q")
  have p1: "prefix s0 s1" using st_limit_step_prefix[OF assms, of b] l by simp
  show ?thesis
  proof (cases r1)
    case (Inl e)
    then show ?thesis using l p1 by (simp add: st_head_steps_def)
  next
    case (Inr b1)
    obtain s2 r2 where o: "st_offset_step s1 b1 q = (s2, r2)" by (cases "st_offset_step s1 b1 q")
    have p2: "prefix s0 s2" using st_offset_step_prefix[OF assms(1) p1, of b1] o by simp
    show ?thesis
    proof (cases r2)
      case (Inl e)
      then show ?thesis using l Inr o p2 by (simp add: st_head_steps_def)
    next
      case inr2: (Inr b2)
      show ?thesis using l Inr o inr2 st_orderBy_step_prefix[OF assms(1) p2, of b2]
        by (simp add: st_head_steps_def)
    qed
  qed
qed

lemma st_fields_loop_prefix:
  "fresh_in s0 q \<Longrightarrow> prefix s0 s \<Longrightarrow> prefix s0 (fst (st_fields_loop s q b entries))"
proof (induction entries arbitrary: s b)
  case Nil
  then show ?case by simp
next
  case (Cons e entries)
  obtain field cond where e: "e = (field, cond)" by (cases e)
  have p: "prefix s0 (st_delete s q field)" using Cons.prems by (rule st_delete_prefix)
  show ?case
  proof (cases "st_entries (st_delete s q field) cond")
    case (Inl err)
    then show ?thesis using e p by (simp add: Let_def)
  next
    case (Inr ops)
    then show ?thesis using e Cons.IH[OF Cons.prems(1) p] by (simp add: Let_def)
  qed
qed

lemma toSql_st_prefix: "prefix s (fst (toSql_st n s b q0))"
proof (induction n arbitrary: s b q0)
  case 0
  show ?case by simp
next
  case (Suc n)
  obtain s1 r1 where c: "st_copy n s q0 = (s1, r1)" by (cases "st_copy n s q0")
  have p1: "prefix s s1" using st_copy_prefix_aux(1)[of s n q0] c by simp
  show ?case
  proof (cases r1)
    case (Inl e)
    then show ?thesis using c p1 by simp
  next
    case (Inr query)
    have fr: "fresh_in s query" using c Inr by (auto dest: st_copy_fresh)
    obtain s2 r2 where h: "st_head_steps s1 b query = (s2, r2)"
      by (cases "st_head_steps s1 b query")
    have p2: "prefix s s2" using st_head_steps_prefix[OF fr p1, of b] h by simp
    show ?thesis
    proof (cases r2)
      case (Inl e)
      then show ?thesis using c Inr h p2 by simp
    next
      case inr2: (Inr b3)
      show ?thesis
      proof (cases "st_in ''where'' s2 query")
        case (Inl e)
        then show ?thesis using c Inr h inr2 p2 by simp
      next
        case inr3: (Inr present)
        define w where "w = (if present then toSql_st n s2 b3 (st_prop s2 query ''where'')
                             else (s2, Inr b3))"
        obtain s3 r3 where w3: "w = (s3, r3)" by (cases w)
        have "prefix s2 s3"
          using Suc.IH[of s2 b3 "st_prop s2 query ''where''"] w3 by (auto simp: w_def split: if_splits)
        with p2 have p3: "prefix s s3" by (rule prefix_order.trans)
        define s4 where "s4 = (if present then st_delete s3 query ''where'' else s3)"
        have p4: "prefix s s4" using p3 st_delete_prefix[OF fr p3] by (simp add: s4_def)
        have unf: "toSql_st (Suc n) s b q0 =
              (case r3 of Inl err \<Rightarrow> (s3, Inl err)
               | Inr b4 \<Rightarrow> (case st_entries s4 query of Inl err \<Rightarrow> (s4, Inl err)
                              | Inr entries \<Rightarrow> st_fields_loop s4 query b4 entries))"
          using c Inr h inr2 inr3 w3 unfolding w_def s4_def
          by (cases present) (simp_all add: Let_def cong: sum.case_cong)
        show ?thesis
          unfolding unf using p3 p4 st_fields_loop_prefix[OF fr p4]
          by (auto split: sum.splits)
      qed
    qed
  qed
qed

text \<open>
  Claim C5. Compiling a query leaves the caller's query object unchanged at every level of
  nesting: whatever the store, the builder and the query value, and however the
  compilation ends, every cell that the store held before the call holds the same content
  after it. The compiler writes to the cells of its working copies only.
\<close>

theorem toSql_st_frame: "take (length s) (fst (toSql_st n s builder query)) = s"
  using toSql_st_prefix[of s n builder query] by (auto simp: prefix_def)

theorem toSql_st_frame_witness:
  "toSql_st 4 [CObj [(''limit'', VNum 10), (''where'', VRef 1)],
               CObj [(''age'', VRef 2)],
               CObj [(''>='', VNum 18)]] [] (VRef 0)
   = ([CObj [(''limit'', VNum 10), (''where'', VRef 1)],
       CObj [(''age'', VRef 2)],
       CObj [(''>='', VNum 18)],
       CObj [], CObj [(''age'', VRef 5)], CObj [(''>='', VNum 18)],
       CObj [], CObj [(''>='', VNum 18)]],
      Inr [Limit (VNum 10), Where ''age'' ''>='' (VNum 18)])
   \<and> take 3 (fst (toSql_st 4 [CObj [(''limit'', VNum 10), (''where'', VRef 1)],
                              CObj [(''age'', VRef 2)],
                              CObj [(''>='', VNum 18)]] [] (VRef 0)))
     = [CObj [(''limit'', VNum 10), (''where'', VRef 1)],
        CObj [(''age'', VRef 2)],
        CObj [(''>='', VNum 18)]]"
proof -
  let ?s = "[CObj [(''limit'', VNum 10), (''where'', VRef 1)],
             CObj [(''age'', VRef 2)],
             CObj [(''>='', VNum 18)]]"
  have run: "toSql_st 4 ?s [] (VRef 0)
     = ([CObj [(''limit'', VNum 10), (''where'', VRef 1)],
         CObj [(''age'', VRef 2)],
         CObj [(''>='', VNum 18)],
         CObj [], CObj [(''age'', VRef 5)], CObj [(''>='', VNum 18)],
         CObj [], CObj [(''>='', VNum 18)]],
        Inr [Limit (VNum 10), Where ''age'' ''>='' (VNum 18)])"
    by code_simp
  have len: "length ?s = 3" by simp
  have fr: "take 3 (fst (toSql_st 4 ?s [] (VRef 0))) = ?s"
    using toSql_st_frame[of ?s 4 "[]" "VRef 0"] by (simp only: len)
  show ?thesis using run fr by (rule conjI)
qed

section \<open>The remote execution client and the table registry: properties\<close>

lemma executeSQL_sent:
  "fst (executeSQL remote a q ps) = a\<lparr>sent := sent a @ [\<lparr>sql = q, params = ps\<rparr>]\<rparr>"
  by (simp add: executeSQL_def HTTP_def split: sum.splits)

lemma ensureTable_cached:
  "getTable m \<in> tableCache a \<Longrightarrow> ensureTable remote a m = (a, Inr ())"
  by (simp add: ensureTable_def)

lemma getTable_user_mapper: "getTable user_mapper = ''user''"
  by (simp add: user_mapper_def getTable_def underscore_def toLowerCase_def lower_char_def
      upper_chars_def lower_chars_def)

lemma createTableSql_user_mapper:
  "createTableSql user_mapper ''user''
   = Inr ''CREATE TABLE IF NOT EXISTS user (id INTEGER PRIMARY KEY AUTOINCREMENT)''"
  by (simp add: user_mapper_def createTableSql_def or_else_def get_prop_def id_attribute_of_def
      synthesized_id_def)

lemma getTable_null_field_mapper: "getTable null_field_mapper = ''user''"
  by (simp add: null_field_mapper_def getTable_def underscore_def toLowerCase_def lower_char_def
      upper_chars_def lower_chars_def)

lemma createTableSql_null_field_mapper:
  "createTableSql null_field_mapper ''user'' = Inl TypeError"
  by (simp add: null_field_mapper_def createTableSql_def or_else_def get_prop_def id_attribute_of_def
      synthesized_id_def column_def_def sql_type_def default_clause_def Let_def)

text \<open>
  Claim C4 says that a failure envelope always fails with the message of its first error,
  and with \<^verbatim>\<open>Unknown error\<close> only when the array of errors is empty. The message is
  taken with \<^verbatim>\<open>||\<close>: a first error whose message is the empty string (or is missing)
  also gives \<^verbatim>\<open>Unknown error\<close>.
\<close>

theorem executeSQL_empty_message:
  "snd (executeSQL (failing_remote [JObj [(''message'', JStr [])]]) (new_adapter (JBool True))
          ''INVALID SQL'' [])
     = Inl (Error ''Unknown error'')
   \<and> js_to_string (JStr []) \<noteq> ''Unknown error''"
  by (simp add: executeSQL_def HTTP_def failing_remote_def new_adapter_def envelope_error_def
      get_prop_def nth_or_def opt_prop_def or_else_def)

text \<open>
  Claim C4, amended. For an envelope whose \<^verbatim>\<open>success\<close> is false and whose
  \<^verbatim>\<open>errors\<close> is an array, the call fails with an error whose message is the message of
  the first error when that message is truthy (present and not empty), and
  \<^verbatim>\<open>Unknown error\<close> otherwise, which includes the empty array. For an envelope whose
  \<^verbatim>\<open>success\<close> is true and whose \<^verbatim>\<open>result\<close> is an array, the call returns exactly
  the first element of that array (undefined when it is empty).
\<close>

theorem executeSQL_envelope:
  assumes "remote (sent a) \<lparr>sql = q, params = ps\<rparr> = Inr (JObj env)"
  shows "(map_of env ''success'' = Some (JBool False) \<and> map_of env ''errors'' = Some (JArr errs)
          \<longrightarrow> snd (executeSQL remote a q ps)
              = Inl (Error (case errs of
                              [] \<Rightarrow> ''Unknown error''
                            | e # _ \<Rightarrow> if truthy (opt_prop e ''message'')
                                       then js_to_string (opt_prop e ''message'')
                                       else ''Unknown error'')))
       \<and> (map_of env ''success'' = Some (JBool True) \<and> map_of env ''result'' = Some (JArr rs)
          \<longrightarrow> snd (executeSQL remote a q ps) = Inr (case rs of [] \<Rightarrow> JUndefined | r # _ \<Rightarrow> r))"
  using assms
  by (simp add: executeSQL_def HTTP_def get_prop_def nth_or_def envelope_error_def or_else_def
      opt_prop_def split: list.splits)

theorem executeSQL_envelope_witness:
  "snd (executeSQL (failing_remote [JObj [(''message'', JStr ''SQL syntax error'')]])
          (new_adapter (JBool True)) ''INVALID SQL'' [])
     = Inl (Error ''SQL syntax error'')
   \<and> snd (executeSQL (failing_remote []) (new_adapter (JBool True)) ''INVALID SQL'' [])
     = Inl (Error ''Unknown error'')
   \<and> snd (executeSQL (mock_remote (JNum 1)) (new_adapter (JBool True)) ''SELECT 1'' [])
     = Inr (JObj [(''results'', JArr []), (''meta'', JObj [])])"
proof -
  let ?a = "new_adapter (JBool True)"
  let ?e1 = "[(''success'', JBool False), (''errors'', JArr [JObj [(''message'', JStr ''SQL syntax error'')]])]"
  let ?e2 = "[(''success'', JBool False), (''errors'', JArr [])]"
  let ?e3 = "[(''success'', JBool True),
              (''result'', JArr [JObj [(''results'', JArr []), (''meta'', JObj [])]])]"
  have r1: "failing_remote [JObj [(''message'', JStr ''SQL syntax error'')]] (sent ?a)
              \<lparr>sql = ''INVALID SQL'', params = []\<rparr> = Inr (JObj ?e1)"
    by (simp add: failing_remote_def)
  have r2: "failing_remote [] (sent ?a) \<lparr>sql = ''INVALID SQL'', params = []\<rparr> = Inr (JObj ?e2)"
    by (simp add: failing_remote_def)
  have r3: "mock_remote (JNum 1) (sent ?a) \<lparr>sql = ''SELECT 1'', params = []\<rparr> = Inr (JObj ?e3)"
    by (simp add: mock_remote_def new_adapter_def)
  show ?thesis
    using executeSQL_envelope[where remote = "failing_remote [JObj [(''message'', JStr ''SQL syntax error'')]]"
        and a = ?a and errs = "[JObj [(''message'', JStr ''SQL syntax error'')]]", OF r1]
      executeSQL_envelope[where remote = "failing_remote []" and a = ?a and errs = "[]", OF r2]
      executeSQL_envelope[where remote = "mock_remote (JNum 1)" and a = ?a
        and rs = "[JObj [(''results'', JArr []), (''meta'', JObj [])]]", OF r3]
    by (simp add: opt_prop_def get_prop_def)
qed

text \<open>
  Claim C8. With auto-creation disabled (a falsy \<^verbatim>\<open>autocreateTables\<close>) and the table
  of the mapper not in the cache, \<^verbatim>\<open>_ensureTable\<close> fails with the error
  \<^verbatim>\<open>Table <tableName> not found\<close> and returns the adapter as it was: no request is
  sent and the cache is unchanged.
\<close>

theorem ensureTable_autocreate_disabled:
  assumes "getTable m \<notin> tableCache a" and "\<not> truthy (autocreateTables a)"
  shows "ensureTable remote a m = (a, Inl (Error (''Table '' @ getTable m @ '' not found'')))"
  using assms by (simp add: ensureTable_def)

theorem ensureTable_autocreate_disabled_witness:
  "getTable user_mapper \<notin> tableCache (new_adapter (JBool False))
   \<and> \<not> truthy (autocreateTables (new_adapter (JBool False)))
   \<and> ensureTable (mock_remote (JNum 1)) (new_adapter (JBool False)) user_mapper
       = (new_adapter (JBool False), Inl (Error ''Table user not found''))"
proof -
  have a: "getTable user_mapper \<notin> tableCache (new_adapter (JBool False))"
    by (simp add: new_adapter_def)
  have b: "\<not> truthy (autocreateTables (new_adapter (JBool False)))"
    by (simp add: new_adapter_def)
  show ?thesis
    using ensureTable_autocreate_disabled[OF a b, of "mock_remote (JNum 1)"] a b
    by (simp add: getTable_user_mapper)
qed

text \<open>
  Claim C3 says that two calls of \<^verbatim>\<open>_ensureTable\<close> in sequence, with auto-creation
  enabled and the table not in the cache, perform exactly one provisioning call, and that
  the first call executes the CREATE TABLE statement and caches the name. This fails when
  the schema does not compile: for the properties
  \<^verbatim>\<open>{id: {type: 'integer'}, name: null}\<close> the schema compiler throws a TypeError on
  \<^verbatim>\<open>fieldSchema.type\<close>, before any request is made. Both calls fail with that error,
  no request is sent and the name is not cached.
\<close>

theorem ensureTable_schema_throws:
  "truthy (autocreateTables (new_adapter (JBool True)))
   \<and> getTable null_field_mapper \<notin> tableCache (new_adapter (JBool True))
   \<and> ensureTable (mock_remote (JNum 1)) (new_adapter (JBool True)) null_field_mapper
       = (new_adapter (JBool True), Inl TypeError)
   \<and> ensureTable (mock_remote (JNum 1))
        (fst (ensureTable (mock_remote (JNum 1)) (new_adapter (JBool True)) null_field_mapper))
        null_field_mapper
       = (new_adapter (JBool True), Inl TypeError)
   \<and> sent (fst (ensureTable (mock_remote (JNum 1))
               (fst (ensureTable (mock_remote (JNum 1)) (new_adapter (JBool True)) null_field_mapper))
               null_field_mapper)) = []
   \<and> getTable null_field_mapper
       \<notin> tableCache (fst (ensureTable (mock_remote (JNum 1)) (new_adapter (JBool True))
                              null_field_mapper))"
  by (simp add: ensureTable_def getTable_null_field_mapper createTableSql_null_field_mapper
      new_adapter_def)

text \<open>
  Claim C3, amended. With auto-creation enabled and the table not in the cache: if the
  schema compiler throws, \<^verbatim>\<open>_ensureTable\<close> fails with that error and leaves the
  adapter as it was (no request sent, nothing cached), and so does a call after it; if the
  schema compiles and the provisioning call succeeds, the first \<^verbatim>\<open>_ensureTable\<close>
  sends exactly one request, the CREATE TABLE statement, and adds the table name to the
  cache, and a call after it, whatever the remote, returns at once and leaves the adapter
  as it is, so it sends nothing; if the schema compiles and the provisioning call fails,
  that one request was sent, the error is passed on and the cache is as before.
\<close>

theorem ensureTable_once:
  assumes "truthy (autocreateTables a)" and "getTable m \<notin> tableCache a"
  shows "(case createTableSql m (getTable m) of
            Inl e \<Rightarrow>
              ensureTable remote a m = (a, Inl e)
              \<and> ensureTable remote' (fst (ensureTable remote a m)) m = (a, Inl e)
          | Inr ddl \<Rightarrow>
              (case snd (executeSQL remote a ddl []) of
                 Inr res \<Rightarrow>
                   ensureTable remote a m
                     = (a\<lparr>sent := sent a @ [\<lparr>sql = ddl, params = []\<rparr>],
                          tableCache := insert (getTable m) (tableCache a)\<rparr>, Inr ())
                   \<and> ensureTable remote' (fst (ensureTable remote a m)) m
                     = (fst (ensureTable remote a m), Inr ())
               | Inl err \<Rightarrow>
                   ensureTable remote a m
                     = (a\<lparr>sent := sent a @ [\<lparr>sql = ddl, params = []\<rparr>]\<rparr>, Inl err)))"
proof (cases "createTableSql m (getTable m)")
  case (Inl e)
  have "ensureTable r a m = (a, Inl e)" for r
    using assms Inl by (simp add: ensureTable_def)
  then show ?thesis using Inl by simp
next
  case ddl: (Inr ddl)
  obtain a' r where Pair: "executeSQL remote a ddl [] = (a', r)"
    by (cases "executeSQL remote a ddl []")
  have a': "a' = a\<lparr>sent := sent a @ [\<lparr>sql = ddl, params = []\<rparr>]\<rparr>"
    using executeSQL_sent[of remote a ddl "[]"] Pair by simp
  show ?thesis
  proof (cases r)
    case (Inl err)
    then show ?thesis using assms ddl Pair a' by (simp add: ensureTable_def)
  next
    case (Inr res)
    have e: "ensureTable remote a m
             = (a\<lparr>sent := sent a @ [\<lparr>sql = ddl, params = []\<rparr>],
                  tableCache := insert (getTable m) (tableCache a)\<rparr>, Inr ())"
      using assms ddl Pair a' Inr by (simp add: ensureTable_def)
    show ?thesis using ddl Pair Inr e by (simp add: ensureTable_cached)
  qed
qed

theorem ensureTable_once_witness:
  "truthy (autocreateTables (new_adapter (JBool True)))
   \<and> getTable user_mapper \<notin> tableCache (new_adapter (JBool True))
   \<and> createTableSql user_mapper (getTable user_mapper)
       = Inr ''CREATE TABLE IF NOT EXISTS user (id INTEGER PRIMARY KEY AUTOINCREMENT)''
   \<and> ensureTable (mock_remote (JNum 1)) (new_adapter (JBool True)) user_mapper
       = (\<lparr>autocreateTables = JBool True, tableCache = {''user''},
           sent = [\<lparr>sql = ''CREATE TABLE IF NOT EXISTS user (id INTEGER PRIMARY KEY AUTOINCREMENT)'',
                    params = []\<rparr>]\<rparr>, Inr ())
   \<and> ensureTable (mock_remote (JNum 1))
         \<lparr>autocreateTables = JBool True, tableCache = {''user''},
          sent = [\<lparr>sql = ''CREATE TABLE IF NOT EXISTS user (id INTEGER PRIMARY KEY AUTOINCREMENT)'',
                   params = []\<rparr>]\<rparr> user_mapper
       = (\<lparr>autocreateTables = JBool True, tableCache = {''user''},
           sent = [\<lparr>sql = ''CREATE TABLE IF NOT EXISTS user (id INTEGER PRIMARY KEY AUTOINCREMENT)'',
                    params = []\<rparr>]\<rparr>, Inr ())
   \<and> ensureTable (failing_remote []) (new_adapter (JBool True)) user_mapper
       = (\<lparr>autocreateTables = JBool True, tableCache = {},
           sent = [\<lparr>sql = ''CREATE TABLE IF NOT EXISTS user (id INTEGER PRIMARY KEY AUTOINCREMENT)'',
                    params = []\<rparr>]\<rparr>, Inl (Error ''Unknown error''))
   \<and> getTable null_field_mapper \<notin> tableCache (new_adapter (JBool True))
   \<and> createTableSql null_field_mapper (getTable null_field_mapper) = Inl TypeError
   \<and> ensureTable (failing_remote []) (new_adapter (JBool True)) null_field_mapper
       = (new_adapter (JBool True), Inl TypeError)"
proof -
  let ?a = "new_adapter (JBool True)"
  let ?ddl = "''CREATE TABLE IF NOT EXISTS user (id INTEGER PRIMARY KEY AUTOINCREMENT)''"
  have h1: "truthy (autocreateTables ?a)" by (simp add: new_adapter_def)
  have h2: "getTable user_mapper \<notin> tableCache ?a" by (simp add: new_adapter_def)
  have h3: "createTableSql user_mapper (getTable user_mapper) = Inr ?ddl"
    by (simp add: getTable_user_mapper createTableSql_user_mapper)
  have x1: "snd (executeSQL (mock_remote (JNum 1)) ?a ?ddl [])
            = Inr (JObj [(''results'', JArr []), (''meta'', JObj [])])"
    by (simp add: executeSQL_def HTTP_def mock_remote_def new_adapter_def get_prop_def nth_or_def)
  have x2: "snd (executeSQL (failing_remote []) ?a ?ddl []) = Inl (Error ''Unknown error'')"
    by (simp add: executeSQL_def HTTP_def failing_remote_def new_adapter_def get_prop_def
        nth_or_def envelope_error_def opt_prop_def or_else_def)
  let ?a1 = "\<lparr>autocreateTables = JBool True, tableCache = {''user''},
              sent = [\<lparr>sql = ?ddl, params = []\<rparr>]\<rparr>"
  let ?r = "mock_remote (JNum 1)"
  note c = ensureTable_once[OF h1 h2, of ?r ?r, unfolded h3 sum.case x1]
  have u: "?a\<lparr>sent := sent ?a @ [\<lparr>sql = ?ddl, params = []\<rparr>],
               tableCache := insert (getTable user_mapper) (tableCache ?a)\<rparr> = ?a1"
    by (simp add: new_adapter_def getTable_user_mapper)
  have e1: "ensureTable ?r ?a user_mapper = (?a1, Inr ())"
    using conjunct1[OF c] by (simp only: u)
  have e2: "ensureTable ?r ?a1 user_mapper = (?a1, Inr ())"
    using conjunct2[OF c] by (simp only: e1 fst_conv)
  note f = ensureTable_once[OF h1 h2, of "failing_remote []" "failing_remote []",
      unfolded h3 sum.case x2]
  have e3: "ensureTable (failing_remote []) ?a user_mapper
            = (\<lparr>autocreateTables = JBool True, tableCache = {},
                sent = [\<lparr>sql = ?ddl, params = []\<rparr>]\<rparr>, Inl (Error ''Unknown error''))"
    using f by (simp add: new_adapter_def)
  have n2: "getTable null_field_mapper \<notin> tableCache ?a" by (simp add: new_adapter_def)
  have n3: "createTableSql null_field_mapper (getTable null_field_mapper) = Inl TypeError"
    by (simp add: getTable_null_field_mapper createTableSql_null_field_mapper)
  note g = ensureTable_once[OF h1 n2, of "failing_remote []" "failing_remote []",
      unfolded n3 sum.case]
  have e4: "ensureTable (failing_remote []) ?a null_field_mapper = (?a, Inl TypeError)"
    using conjunct1[OF g] .
  show ?thesis using h1 h2 h3 e1 e2 e3 n2 n3 e4 by simp
qed
section \<open>Creating a record: properties\<close>

lemma map_of_update_existing:
  "map_of (map (\<lambda>kv. if fst kv = k then (k, x) else kv) kvs) k' =
     (if k' = k \<and> map_of kvs k \<noteq> None then Some x else map_of kvs k')"
  by (induction kvs) auto

lemma map_of_insert_between:
  "map_of (takeWhile P kvs @ [(k, x)] @ dropWhile P kvs) k' =
     (if k' = k \<and> map_of (takeWhile P kvs) k = None then Some x
      else map_of kvs k')"
proof -
  have "map_of kvs k' = map_of (takeWhile P kvs @ dropWhile P kvs) k'" by simp
  also have "\<dots> = (map_of (dropWhile P kvs) ++ map_of (takeWhile P kvs)) k'"
    by (simp only: map_of_append)
  finally have split: "map_of kvs k' = (map_of (dropWhile P kvs) ++ map_of (takeWhile P kvs)) k'" .
  show ?thesis
    by (auto simp: split map_add_def split: option.splits)
qed

lemma map_of_takeWhile_None: "map_of kvs k = None \<Longrightarrow> map_of (takeWhile P kvs) k = None"
  by (induction kvs) (auto split: if_splits)

text \<open>An assignment sets the property and leaves every other property as it is.\<close>

lemma map_of_obj_set: "map_of (obj_set kvs k x) = (map_of kvs)(k \<mapsto> x)"
proof (rule ext)
  fix k'
  show "map_of (obj_set kvs k x) k' = ((map_of kvs)(k \<mapsto> x)) k'"
  proof (cases "map_of kvs k")
    case (Some y)
    then show ?thesis by (simp add: obj_set_def map_of_update_existing)
  next
    case None
    show ?thesis
    proof (cases "array_index k")
      case inone: None
      have "obj_set kvs k x = kvs @ [(k, x)]" using None inone by (simp add: obj_set_def)
      then show ?thesis using None by (auto simp: map_add_def split: option.splits)
    next
      case (Some n)
      let ?P = "\<lambda>kv. index_before n (fst kv)"
      have "obj_set kvs k x = takeWhile ?P kvs @ [(k, x)] @ dropWhile ?P kvs"
        using None Some by (simp add: obj_set_def)
      then have "map_of (obj_set kvs k x) k' =
          (if k' = k \<and> map_of (takeWhile ?P kvs) k = None then Some x else map_of kvs k')"
        by (simp only: map_of_insert_between)
      then show ?thesis using map_of_takeWhile_None[OF None, of ?P] by simp
    qed
  qed
qed

text \<open>The run of the test suite: the table is provisioned, then the record is inserted.\<close>

lemma ensureTable_mock:
  "ensureTable (mock_remote row_id) (new_adapter (JBool True)) user_mapper
   = (\<lparr>autocreateTables = JBool True, tableCache = {''user''},
       sent = [\<lparr>sql = ''CREATE TABLE IF NOT EXISTS user (id INTEGER PRIMARY KEY AUTOINCREMENT)'',
                params = []\<rparr>]\<rparr>, Inr ())"
  by (simp add: ensureTable_def getTable_user_mapper createTableSql_user_mapper new_adapter_def
      executeSQL_def HTTP_def mock_remote_def get_prop_def nth_or_def)

lemma executeSQL_mock_insert:
  "executeSQL (mock_remote row_id)
     \<lparr>autocreateTables = JBool True, tableCache = {''user''},
      sent = [\<lparr>sql = ''CREATE TABLE IF NOT EXISTS user (id INTEGER PRIMARY KEY AUTOINCREMENT)'',
               params = []\<rparr>]\<rparr>
     (sql (insert_stub (getTable user_mapper) s props))
     (params (insert_stub (getTable user_mapper) s props))
   = (\<lparr>autocreateTables = JBool True, tableCache = {''user''},
       sent = [\<lparr>sql = ''CREATE TABLE IF NOT EXISTS user (id INTEGER PRIMARY KEY AUTOINCREMENT)'',
                params = []\<rparr>,
               \<lparr>sql = ''insert into user'', params = []\<rparr>]\<rparr>,
      Inr (JObj [(''results'', JArr []), (''meta'', JObj [(''last_row_id'', row_id)])]))"
  by (simp add: executeSQL_def HTTP_def mock_remote_def get_prop_def nth_or_def insert_stub_def
      getTable_user_mapper)

text \<open>
  Claim C9 says that the record is annotated whenever the metadata reports a
  \<^verbatim>\<open>last_row_id\<close>. The annotation is guarded by \<^verbatim>\<open>if (id)\<close>: a reported
  \<^verbatim>\<open>last_row_id\<close> of 0 is falsy, and the record comes back without an id.
\<close>

theorem create_row_id_zero:
  "create (mock_remote (JNum 0)) insert_stub (new_adapter (JBool True))
     [CObj [(''name'', VStr ''John Doe'')]] user_mapper (VRef 0)
   = ((\<lparr>autocreateTables = JBool True, tableCache = {''user''},
        sent = [\<lparr>sql = ''CREATE TABLE IF NOT EXISTS user (id INTEGER PRIMARY KEY AUTOINCREMENT)'',
                 params = []\<rparr>,
                \<lparr>sql = ''insert into user'', params = []\<rparr>]\<rparr>,
       [CObj [(''name'', VStr ''John Doe'')]]),
      Inr (VRef 0, JObj [(''last_row_id'', JNum 0)]))
   \<and> st_prop [CObj [(''name'', VStr ''John Doe'')]] (VRef 0) ''id'' = VUndefined"
  by (simp add: create_def Let_def ensureTable_mock executeSQL_mock_insert opt_prop_def
      get_prop_def st_cell_def)

text \<open>
  Claim C9, amended. Where the table is ensured, the INSERT succeeds and the result has
  metadata, for a record that is an object of the store: if the metadata reports a
  \<^verbatim>\<open>last_row_id\<close> that is a number other than 0, \<^verbatim>\<open>_create\<close> returns the record it
  was given, with the id attribute of the mapper set to that number and every other
  property as it was, paired with the metadata, and sends no further request; if the
  \<^verbatim>\<open>last_row_id\<close> is absent or falsy, it returns the record without annotation,
  paired with the metadata.
\<close>

theorem create_result:
  assumes "ensureTable remote a m = (a1, Inr ())"
    and "executeSQL remote a1 (sql (insert_sql (getTable m) s (VRef p)))
           (params (insert_sql (getTable m) s (VRef p))) = (a2, Inr result)"
    and "js_prop result ''meta'' = Inr meta"
    and "p < length s" and "s ! p = CObj kvs"
  shows "(opt_prop meta ''last_row_id'' = JNum n \<and> n \<noteq> 0 \<longrightarrow>
            create remote insert_sql a s m (VRef p)
              = ((a2, s[p := CObj (obj_set kvs (id_key m) (VNum n))]), Inr (VRef p, meta))
            \<and> map_of (obj_set kvs (id_key m) (VNum n)) = (map_of kvs)(id_key m \<mapsto> VNum n))
       \<and> (\<not> truthy (opt_prop meta ''last_row_id'') \<longrightarrow>
            create remote insert_sql a s m (VRef p) = ((a2, s), Inr (VRef p, meta)))"
proof (intro conjI impI)
  assume "opt_prop meta ''last_row_id'' = JNum n \<and> n \<noteq> 0"
  then show "create remote insert_sql a s m (VRef p)
             = ((a2, s[p := CObj (obj_set kvs (id_key m) (VNum n))]), Inr (VRef p, meta))"
    using assms by (simp add: create_def Let_def st_cell_def)
next
  show "map_of (obj_set kvs (id_key m) (VNum n)) = (map_of kvs)(id_key m \<mapsto> VNum n)"
    by (rule map_of_obj_set)
next
  assume "\<not> truthy (opt_prop meta ''last_row_id'')"
  then show "create remote insert_sql a s m (VRef p) = ((a2, s), Inr (VRef p, meta))"
    using assms by (simp add: create_def Let_def)
qed

theorem create_result_witness:
  "create (mock_remote (JNum 123)) insert_stub (new_adapter (JBool True))
     [CObj [(''name'', VStr ''John Doe'')]] user_mapper (VRef 0)
   = ((\<lparr>autocreateTables = JBool True, tableCache = {''user''},
        sent = [\<lparr>sql = ''CREATE TABLE IF NOT EXISTS user (id INTEGER PRIMARY KEY AUTOINCREMENT)'',
                 params = []\<rparr>,
                \<lparr>sql = ''insert into user'', params = []\<rparr>]\<rparr>,
       [CObj [(''name'', VStr ''John Doe''), (''id'', VNum 123)]]),
      Inr (VRef 0, JObj [(''last_row_id'', JNum 123)]))"
proof -
  let ?s = "[CObj [(''name'', VStr ''John Doe'')]]"
  let ?meta = "JObj [(''last_row_id'', JNum 123)]"
  have m: "js_prop (JObj [(''results'', JArr []), (''meta'', ?meta)]) ''meta'' = Inr ?meta"
    by simp
  have c: "0 < length ?s" "?s ! 0 = CObj [(''name'', VStr ''John Doe'')]"
    by simp_all
  have i: "opt_prop ?meta ''last_row_id'' = JNum 123 \<and> (123 :: int) \<noteq> 0"
    by (simp add: opt_prop_def get_prop_def)
  have k: "obj_set [(''name'', VStr ''John Doe'')] (id_key user_mapper) (VNum 123)
           = [(''name'', VStr ''John Doe''), (''id'', VNum 123)]"
    unfolding user_mapper_def by code_simp
  show ?thesis
    using create_result[where remote = "mock_remote (JNum 123)" and insert_sql = insert_stub
        and a = "new_adapter (JBool True)" and m = user_mapper and s = ?s and p = 0 and n = 123,
        OF ensureTable_mock executeSQL_mock_insert m c] i
    by (simp add: k)
qed

text \<open>
  Claim C10 says that the id is written onto the caller's object whenever the metadata
  carries a \<^verbatim>\<open>last_row_id\<close>. With a \<^verbatim>\<open>last_row_id\<close> of 0 nothing is written: the
  store after the call is the store before it.
\<close>

theorem create_row_id_zero_no_write:
  "snd (fst (create (mock_remote (JNum 0)) insert_stub (new_adapter (JBool True))
               [CObj [(''email'', VStr ''john@example.com'')], CArr []] user_mapper (VRef 0)))
   = [CObj [(''email'', VStr ''john@example.com'')], CArr []]
   \<and> snd (create (mock_remote (JNum 0)) insert_stub (new_adapter (JBool True))
               [CObj [(''email'', VStr ''john@example.com'')], CArr []] user_mapper (VRef 0))
   = Inr (VRef 0, JObj [(''last_row_id'', JNum 0)])"
  by (simp add: create_def Let_def ensureTable_mock executeSQL_mock_insert opt_prop_def
      get_prop_def)

text \<open>
  Claim C10, amended. Where the metadata carries a \<^verbatim>\<open>last_row_id\<close> that is a number
  other than 0, \<^verbatim>\<open>_create\<close> writes the id attribute into the caller's own object: the
  reference it returns is the reference it was given, no cell is added to the store, the
  cell of the record now holds the id, and every other cell is as before. Compiling the
  same object as a query, by contrast, leaves its cell as it was.
\<close>

theorem create_in_place:
  assumes "ensureTable remote a m = (a1, Inr ())"
    and "executeSQL remote a1 (sql (insert_sql (getTable m) s (VRef p)))
           (params (insert_sql (getTable m) s (VRef p))) = (a2, Inr result)"
    and "js_prop result ''meta'' = Inr meta"
    and "p < length s" and "s ! p = CObj kvs"
    and "opt_prop meta ''last_row_id'' = JNum n" and "n \<noteq> 0"
  shows "\<exists>s'. create remote insert_sql a s m (VRef p) = ((a2, s'), Inr (VRef p, meta))
           \<and> length s' = length s
           \<and> st_prop s' (VRef p) (id_key m) = VNum n
           \<and> (\<forall>q < length s. q \<noteq> p \<longrightarrow> s' ! q = s ! q)
           \<and> fst (toSql_st fuel s builder (VRef p)) ! p = s ! p"
proof -
  let ?s' = "s[p := CObj (obj_set kvs (id_key m) (VNum n))]"
  have c: "create remote insert_sql a s m (VRef p) = ((a2, ?s'), Inr (VRef p, meta))"
    using assms by (simp add: create_def Let_def st_cell_def)
  have r: "st_prop ?s' (VRef p) (id_key m) = VNum n"
    using assms(4) by (simp add: st_cell_def map_of_obj_set)
  have "prefix s (fst (toSql_st fuel s builder (VRef p)))" by (rule toSql_st_prefix)
  then have q: "fst (toSql_st fuel s builder (VRef p)) ! p = s ! p"
    using assms(4) by (auto simp: prefix_def nth_append)
  show ?thesis using c r q by auto
qed

theorem create_in_place_witness:
  "(\<exists>s'. create (mock_remote (JNum 123)) insert_stub (new_adapter (JBool True))
            [CObj [(''name'', VStr ''John Doe'')], CObj [(''other'', VNull)]] user_mapper (VRef 0)
          = ((\<lparr>autocreateTables = JBool True, tableCache = {''user''},
               sent = [\<lparr>sql = ''CREATE TABLE IF NOT EXISTS user (id INTEGER PRIMARY KEY AUTOINCREMENT)'',
                        params = []\<rparr>,
                       \<lparr>sql = ''insert into user'', params = []\<rparr>]\<rparr>, s'),
             Inr (VRef 0, JObj [(''last_row_id'', JNum 123)]))
        \<and> length s' = 2
        \<and> st_prop s' (VRef 0) ''id'' = VNum 123
        \<and> s' ! 1 = CObj [(''other'', VNull)])
   \<and> st_prop [CObj [(''name'', VStr ''John Doe'')], CObj [(''other'', VNull)]] (VRef 0) ''id''
       = VUndefined"
proof -
  let ?s = "[CObj [(''name'', VStr ''John Doe'')], CObj [(''other'', VNull)]]"
  let ?meta = "JObj [(''last_row_id'', JNum 123)]"
  have m: "js_prop (JObj [(''results'', JArr []), (''meta'', ?meta)]) ''meta'' = Inr ?meta"
    by simp
  have c: "0 < length ?s" "?s ! 0 = CObj [(''name'', VStr ''John Doe'')]"
    by simp_all
  have i: "opt_prop ?meta ''last_row_id'' = JNum 123" "(123 :: int) \<noteq> 0"
    by (simp_all add: opt_prop_def get_prop_def)
  have k: "id_key user_mapper = ''id''" by (simp add: id_key_def user_mapper_def)
  from create_in_place[where remote = "mock_remote (JNum 123)" and insert_sql = insert_stub
      and a = "new_adapter (JBool True)" and m = user_mapper and s = ?s and p = 0 and n = 123
      and fuel = 0 and builder = "[]",
      OF ensureTable_mock executeSQL_mock_insert m c i]
  obtain s' where
    "create (mock_remote (JNum 123)) insert_stub (new_adapter (JBool True)) ?s user_mapper (VRef 0)
       = ((\<lparr>autocreateTables = JBool True, tableCache = {''user''},
            sent = [\<lparr>sql = ''CREATE TABLE IF NOT EXISTS user (id INTEGER PRIMARY KEY AUTOINCREMENT)'',
                     params = []\<rparr>,
                    \<lparr>sql = ''insert into user'', params = []\<rparr>]\<rparr>, s'),
          Inr (VRef 0, ?meta))"
    and "length s' = length ?s"
    and "st_prop s' (VRef 0) (id_key user_mapper) = VNum 123"
    and "\<forall>q < length ?s. q \<noteq> 0 \<longrightarrow> s' ! q = ?s ! q"
    by blast
  then show ?thesis by (auto simp: k st_cell_def)
qed

end
